theory Spec2Isabelle
  imports Main
begin

section \<open>Tokens (package go/token of the Go standard library)\<close>

text \<open>
  The program imports \<^verbatim>\<open>go/token\<close> and \<^verbatim>\<open>go/scanner\<close> from the Go standard library.
  In Go, \<^verbatim>\<open>type Token int\<close>, and the token kinds are the consecutive constants of one
  \<^verbatim>\<open>iota\<close> block; the model keeps that representation, so that \<^verbatim>\<open>IsLiteral\<close> and
  \<^verbatim>\<open>String\<close> are the range test and the table lookup of the library.
\<close>

type_synonym Token = int

named_theorems token_code \<open>numeric values of the token constants\<close>

definition ILLEGAL :: Token where [token_code]: "ILLEGAL = 0"
definition EOF :: Token where [token_code]: "EOF = 1"
definition COMMENT :: Token where [token_code]: "COMMENT = 2"
definition literal_beg :: Token where [token_code]: "literal_beg = 3"
definition IDENT :: Token where [token_code]: "IDENT = 4"
definition INT_tok :: Token where [token_code]: "INT_tok = 5"  \<comment> \<open>\<^verbatim>\<open>token.INT\<close>\<close>
definition FLOAT :: Token where [token_code]: "FLOAT = 6"
definition IMAG :: Token where [token_code]: "IMAG = 7"
definition CHAR_tok :: Token where [token_code]: "CHAR_tok = 8"  \<comment> \<open>\<^verbatim>\<open>token.CHAR\<close>\<close>
definition STRING :: Token where [token_code]: "STRING = 9"
definition literal_end :: Token where [token_code]: "literal_end = 10"
definition operator_beg :: Token where [token_code]: "operator_beg = 11"
definition ADD :: Token where [token_code]: "ADD = 12"
definition SUB :: Token where [token_code]: "SUB = 13"
definition MUL :: Token where [token_code]: "MUL = 14"
definition QUO :: Token where [token_code]: "QUO = 15"
definition REM :: Token where [token_code]: "REM = 16"
definition AND :: Token where [token_code]: "AND = 17"
definition OR :: Token where [token_code]: "OR = 18"
definition XOR :: Token where [token_code]: "XOR = 19"
definition SHL :: Token where [token_code]: "SHL = 20"
definition SHR :: Token where [token_code]: "SHR = 21"
definition AND_NOT :: Token where [token_code]: "AND_NOT = 22"
definition ADD_ASSIGN :: Token where [token_code]: "ADD_ASSIGN = 23"
definition SUB_ASSIGN :: Token where [token_code]: "SUB_ASSIGN = 24"
definition MUL_ASSIGN :: Token where [token_code]: "MUL_ASSIGN = 25"
definition QUO_ASSIGN :: Token where [token_code]: "QUO_ASSIGN = 26"
definition REM_ASSIGN :: Token where [token_code]: "REM_ASSIGN = 27"
definition AND_ASSIGN :: Token where [token_code]: "AND_ASSIGN = 28"
definition OR_ASSIGN :: Token where [token_code]: "OR_ASSIGN = 29"
definition XOR_ASSIGN :: Token where [token_code]: "XOR_ASSIGN = 30"
definition SHL_ASSIGN :: Token where [token_code]: "SHL_ASSIGN = 31"
definition SHR_ASSIGN :: Token where [token_code]: "SHR_ASSIGN = 32"
definition AND_NOT_ASSIGN :: Token where [token_code]: "AND_NOT_ASSIGN = 33"
definition LAND :: Token where [token_code]: "LAND = 34"
definition LOR :: Token where [token_code]: "LOR = 35"
definition ARROW :: Token where [token_code]: "ARROW = 36"
definition INC :: Token where [token_code]: "INC = 37"
definition DEC :: Token where [token_code]: "DEC = 38"
definition EQL :: Token where [token_code]: "EQL = 39"
definition LSS :: Token where [token_code]: "LSS = 40"
definition GTR :: Token where [token_code]: "GTR = 41"
definition ASSIGN :: Token where [token_code]: "ASSIGN = 42"
definition NOT :: Token where [token_code]: "NOT = 43"
definition NEQ :: Token where [token_code]: "NEQ = 44"
definition LEQ :: Token where [token_code]: "LEQ = 45"
definition GEQ :: Token where [token_code]: "GEQ = 46"
definition DEFINE :: Token where [token_code]: "DEFINE = 47"
definition ELLIPSIS :: Token where [token_code]: "ELLIPSIS = 48"
definition LPAREN :: Token where [token_code]: "LPAREN = 49"
definition LBRACK :: Token where [token_code]: "LBRACK = 50"
definition LBRACE :: Token where [token_code]: "LBRACE = 51"
definition COMMA :: Token where [token_code]: "COMMA = 52"
definition PERIOD :: Token where [token_code]: "PERIOD = 53"
definition RPAREN :: Token where [token_code]: "RPAREN = 54"
definition RBRACK :: Token where [token_code]: "RBRACK = 55"
definition RBRACE :: Token where [token_code]: "RBRACE = 56"
definition SEMICOLON :: Token where [token_code]: "SEMICOLON = 57"
definition COLON :: Token where [token_code]: "COLON = 58"
definition operator_end :: Token where [token_code]: "operator_end = 59"
definition keyword_beg :: Token where [token_code]: "keyword_beg = 60"
definition BREAK :: Token where [token_code]: "BREAK = 61"
definition CASE :: Token where [token_code]: "CASE = 62"
definition CHAN :: Token where [token_code]: "CHAN = 63"
definition CONST_tok :: Token where [token_code]: "CONST_tok = 64"  \<comment> \<open>\<^verbatim>\<open>token.CONST\<close>\<close>
definition CONTINUE :: Token where [token_code]: "CONTINUE = 65"
definition DEFAULT :: Token where [token_code]: "DEFAULT = 66"
definition DEFER :: Token where [token_code]: "DEFER = 67"
definition ELSE :: Token where [token_code]: "ELSE = 68"
definition FALLTHROUGH :: Token where [token_code]: "FALLTHROUGH = 69"
definition FOR :: Token where [token_code]: "FOR = 70"
definition FUNC :: Token where [token_code]: "FUNC = 71"
definition GO :: Token where [token_code]: "GO = 72"
definition GOTO :: Token where [token_code]: "GOTO = 73"
definition IF :: Token where [token_code]: "IF = 74"
definition IMPORT :: Token where [token_code]: "IMPORT = 75"
definition INTERFACE :: Token where [token_code]: "INTERFACE = 76"
definition MAP :: Token where [token_code]: "MAP = 77"
definition PACKAGE :: Token where [token_code]: "PACKAGE = 78"
definition RANGE :: Token where [token_code]: "RANGE = 79"
definition RETURN :: Token where [token_code]: "RETURN = 80"
definition SELECT :: Token where [token_code]: "SELECT = 81"
definition STRUCT :: Token where [token_code]: "STRUCT = 82"
definition SWITCH :: Token where [token_code]: "SWITCH = 83"
definition TYPE_tok :: Token where [token_code]: "TYPE_tok = 84"  \<comment> \<open>\<^verbatim>\<open>token.TYPE\<close>\<close>
definition VAR :: Token where [token_code]: "VAR = 85"
definition keyword_end :: Token where [token_code]: "keyword_end = 86"

text \<open>The table \<^verbatim>\<open>tokens\<close> of go/token: the text of each token kind, indexed by its value.\<close>

definition token_strings :: "string list" where
  "token_strings =
    [''ILLEGAL'', ''EOF'', ''COMMENT'', '''',
     ''IDENT'', ''INT'', ''FLOAT'', ''IMAG'', ''CHAR'', ''STRING'', '''', '''',
     ''+'', ''-'', ''*'', ''/'', ''%'',
     ''&'', ''|'', ''^'', ''<<'', ''>>'', ''&^'',
     ''+='', ''-='', ''*='', ''/='', ''%='',
     ''&='', ''|='', ''^='', ''<<='', ''>>='', ''&^='',
     ''&&'', ''||'', ''<-'', ''++'', ''--'',
     ''=='', ''<'', ''>'', ''='', ''!'',
     ''!='', ''<='', ''>='', '':='', ''...'',
     ''('', ''['', ''{'', '','', ''.'',
     '')'', '']'', ''}'', '';'', '':'', '''', '''',
     ''break'', ''case'', ''chan'', ''const'', ''continue'',
     ''default'', ''defer'', ''else'', ''fallthrough'', ''for'',
     ''func'', ''go'', ''goto'', ''if'', ''import'',
     ''interface'', ''map'', ''package'', ''range'', ''return'',
     ''select'', ''struct'', ''switch'', ''type'', ''var'', '''']"

fun itoa :: "nat \<Rightarrow> string" where
  "itoa n = (if n < 10 then [char_of (48 + n)] else itoa (n div 10) @ [char_of (48 + n mod 10)])"

declare itoa.simps [simp del]

text \<open>
  \<^verbatim>\<open>Token.String\<close>: the table entry when there is a non-empty one, and
  \<^verbatim>\<open>"token(" + strconv.Itoa(int(tok)) + ")"\<close> otherwise.
\<close>

definition Token_String :: "Token \<Rightarrow> string" where
  "Token_String tk =
     (let s = (if 0 \<le> tk \<and> tk < int (length token_strings) then token_strings ! nat tk else '''')
      in if s = ''''
         then ''token('' @ (if tk < 0 then ''-'' @ itoa (nat (- tk)) else itoa (nat tk)) @ '')''
         else s)"

definition IsLiteral :: "Token \<Rightarrow> bool" where
  "IsLiteral tk = (literal_beg < tk \<and> tk < literal_end)"

section \<open>The token iterator\<close>

record token_item =
  tok :: Token
  lit :: string

record token_iterator =
  tokens :: "token_item list"
  token_index :: int

text \<open>
  The run-time panics of the Go code are values: a file offset beyond the file
  (\<^verbatim>\<open>File.Pos\<close>), an index outside a slice, and slice bounds out of range.
\<close>

datatype error = IllegalFileOffset | IndexOutOfRange | SliceBoundsOutOfRange

definition literal :: "token_item \<Rightarrow> string" where
  "literal i = (if IsLiteral (tok i) then lit i else Token_String (tok i))"

text \<open>\<^verbatim>\<open>this.tokens[this.token_index]\<close> panics when the index is outside the slice.\<close>

definition token :: "token_iterator \<Rightarrow> error + token_item" where
  "token this =
     (if 0 \<le> token_index this \<and> token_index this < int (length (tokens this))
      then Inr (tokens this ! nat (token_index this))
      else Inl IndexOutOfRange)"

text \<open>The method mutates the iterator through its pointer receiver: the model returns it.\<close>

definition go_back :: "token_iterator \<Rightarrow> bool \<times> token_iterator" where
  "go_back this =
     (if token_index this \<le> 0 then (False, this)
      else (True, this\<lparr>token_index := token_index this - 1\<rparr>))"

text \<open>A Go map lookup of a missing key gives the zero value, which is \<^verbatim>\<open>token.ILLEGAL\<close>.\<close>

definition bracket_pairs_map :: "Token \<Rightarrow> Token" where
  "bracket_pairs_map right =
     (case map_of [(RPAREN, LPAREN), (RBRACK, LBRACK), (RBRACE, LBRACE)] right of
        Some left \<Rightarrow> left
      | None \<Rightarrow> ILLEGAL)"

section \<open>The bracket balancer\<close>

text \<open>
  The loop \<^verbatim>\<open>for balance != 0\<close> of \<^verbatim>\<open>skip_to_left\<close>; \<^verbatim>\<open>balance\<close> is a Go \<^verbatim>\<open>int\<close>, which
  cannot overflow here since it changes by one for each token of a slice held in memory.
\<close>

function skip_to_left_loop ::
  "Token \<Rightarrow> Token \<Rightarrow> int \<Rightarrow> token_iterator \<Rightarrow> error + (bool \<times> token_iterator)" where
  "skip_to_left_loop left right balance ti =
     (if balance = 0 then Inr (True, ti)
      else (case go_back ti of
              (False, ti') \<Rightarrow> Inr (False, ti')
            | (True, ti') \<Rightarrow>
                (case token ti' of
                   Inl e \<Rightarrow> Inl e
                 | Inr t \<Rightarrow>
                     skip_to_left_loop left right
                       (if tok t = right then balance + 1
                        else if tok t = left then balance - 1
                        else balance) ti')))"
  by pat_completeness auto
termination
  by (relation "measure (\<lambda>(left, right, balance, ti). nat (token_index ti))")
     (auto simp: go_back_def split: if_splits)

declare skip_to_left_loop.simps [simp del]

definition skip_to_left ::
  "Token \<Rightarrow> Token \<Rightarrow> token_iterator \<Rightarrow> error + (bool \<times> token_iterator)" where
  "skip_to_left left right ti =
     (case token ti of
        Inl e \<Rightarrow> Inl e
      | Inr t \<Rightarrow> if tok t = left then Inr (True, ti) else skip_to_left_loop left right 1 ti)"

definition skip_to_balanced_pair :: "token_iterator \<Rightarrow> error + (bool \<times> token_iterator)" where
  "skip_to_balanced_pair this =
     (case token this of
        Inl e \<Rightarrow> Inl e
      | Inr t \<Rightarrow> skip_to_left (bracket_pairs_map (tok t)) (tok t) this)"

definition skip_to_left_curly :: "token_iterator \<Rightarrow> error + (bool \<times> token_iterator)" where
  "skip_to_left_curly this = skip_to_left LBRACE RBRACE this"

section \<open>The structural-type extractor\<close>

definition extract_struct_type :: "token_iterator \<Rightarrow> error + string" where
  "extract_struct_type ti =
     (case skip_to_left_curly ti of
        Inl e \<Rightarrow> Inl e
      | Inr (False, ti0) \<Rightarrow> Inr ''''
      | Inr (True, ti0) \<Rightarrow>
     (case go_back ti0 of
        (False, ti1) \<Rightarrow> Inr ''''
      | (True, ti1) \<Rightarrow>
     (case token ti1 of
        Inl e \<Rightarrow> Inl e
      | Inr t1 \<Rightarrow>
     if tok t1 \<noteq> IDENT then Inr ''''
     else let b = literal t1 in
     (case go_back ti1 of
        (False, ti2) \<Rightarrow> Inr b
      | (True, ti2) \<Rightarrow>
     (case token ti2 of
        Inl e \<Rightarrow> Inl e
      | Inr t2 \<Rightarrow>
     if tok t2 \<noteq> PERIOD then Inr b
     else
     (case go_back ti2 of
        (False, ti3) \<Rightarrow> Inr b
      | (True, ti3) \<Rightarrow>
     (case token ti3 of
        Inl e \<Rightarrow> Inl e
      | Inr t3 \<Rightarrow>
     if tok t3 \<noteq> IDENT then Inr b
     else Inr (literal t3 @ ''.'' @ b))))))))"

section \<open>The expression extractor\<close>

text \<open>
  A slice expression \<^verbatim>\<open>s[lo:hi]\<close>. Go panics unless \<^verbatim>\<open>0 <= lo <= hi <= len(s)\<close> for a
  string; for a slice the upper limit is the capacity, which is at least the length, so
  the model reports a panic in no case where Go does not.
\<close>

definition slice :: "'a list \<Rightarrow> int \<Rightarrow> int \<Rightarrow> error + 'a list" where
  "slice xs lo hi =
     (if 0 \<le> lo \<and> lo \<le> hi \<and> hi \<le> int (length xs)
      then Inr (take (nat (hi - lo)) (drop (nat lo) xs))
      else Inl SliceBoundsOutOfRange)"

definition token_items_to_string :: "token_item list \<Rightarrow> string" where
  "token_items_to_string ts = concat (map literal ts)"

text \<open>
  The \<^verbatim>\<open>switch\<close> in the loop of \<^verbatim>\<open>extract_go_expr\<close>, for the token under the read index:
  the result is \<^verbatim>\<open>False\<close> where the source does \<^verbatim>\<open>break loop\<close>, and \<^verbatim>\<open>True\<close> with the
  iterator (moved by \<^verbatim>\<open>skip_to_balanced_pair\<close>, whose result the source drops) where
  the source falls out of the switch.
\<close>

definition extract_go_expr_switch ::
  "Token \<Rightarrow> token_iterator \<Rightarrow> error + (bool \<times> token_iterator)" where
  "extract_go_expr_switch prev this =
     (case token this of
        Inl e \<Rightarrow> Inl e
      | Inr t \<Rightarrow>
          if tok t = PERIOD then Inr (prev = IDENT, this)
          else if tok t = IDENT then
            Inr (prev = PERIOD \<or> prev = LBRACK \<or> prev = LBRACE \<or> prev = LPAREN, this)
          else if tok t = RBRACE then
            (if prev \<noteq> PERIOD then Inr (False, this)
             else (case skip_to_balanced_pair this of
                     Inl e \<Rightarrow> Inl e
                   | Inr (found, this') \<Rightarrow> Inr (True, this')))
          else if tok t = RPAREN \<or> tok t = RBRACK then
            (if prev = PERIOD \<or> prev = LBRACK \<or> prev = LPAREN
             then (case skip_to_balanced_pair this of
                     Inl e \<Rightarrow> Inl e
                   | Inr (found, this') \<Rightarrow> Inr (True, this'))
             else Inr (False, this))
          else Inr (False, this))"

function extract_go_expr_loop :: "int \<Rightarrow> Token \<Rightarrow> token_iterator \<Rightarrow> error + string" where
  "extract_go_expr_loop orig prev this =
     (case go_back this of
        (False, this1) \<Rightarrow>
          (case slice (tokens this1) 0 orig of
             Inl e \<Rightarrow> Inl e
           | Inr ts \<Rightarrow> Inr (token_items_to_string ts))
      | (True, this1) \<Rightarrow>
          (case extract_go_expr_switch prev this1 of
             Inl e \<Rightarrow> Inl e
           | Inr (False, this2) \<Rightarrow>
               (case slice (tokens this2) (token_index this2 + 1) orig of
                  Inl e \<Rightarrow> Inl e
                | Inr ts \<Rightarrow> Inr (token_items_to_string ts))
           | Inr (True, this2) \<Rightarrow>
               (case token this2 of
                  Inl e \<Rightarrow> Inl e
                | Inr t \<Rightarrow> extract_go_expr_loop orig (tok t) this2)))"
  by pat_completeness auto
termination
proof (relation "measure (\<lambda>(orig, prev, this). nat (token_index this))")
  show "wf (measure (\<lambda>(orig, prev, this). nat (token_index this)))"
    by simp
next
  fix orig :: int and prev :: Token and it it1 it2 :: token_iterator
    and went cont :: bool and res :: "bool \<times> token_iterator" and t :: token_item
  assume stepped: "(went, it1) = go_back it" "went = True"
    and sw: "extract_go_expr_switch prev it1 = Inr res" "(cont, it2) = res" "cont = True"
    and t: "token it2 = Inr t"
  have loop: "token_index ti' \<le> token_index ti"
    if "skip_to_left_loop l r b ti = Inr (ok, ti')" for l r b ti ok ti'
    using that
  proof (induction l r b ti rule: skip_to_left_loop.induct)
    case (1 left right balance ti)
    show ?case
    proof (cases "balance = 0")
      case True
      with "1.prems" show ?thesis
        by (simp add: skip_to_left_loop.simps)
    next
      case False
      show ?thesis
      proof (cases "token_index ti \<le> 0")
        case True
        with False "1.prems" show ?thesis
          by (simp add: skip_to_left_loop.simps [of left right balance ti] go_back_def)
      next
        case pos: False
        let ?ti = "ti\<lparr>token_index := token_index ti - 1\<rparr>"
        from pos have gb: "go_back ti = (True, ?ti)"
          by (simp add: go_back_def)
        from False gb "1.prems" obtain u where u: "token ?ti = Inr u"
          by (cases "token ?ti") (simp_all add: skip_to_left_loop.simps [of left right balance ti])
        from False gb u "1.prems"
        have "skip_to_left_loop left right
                (if tok u = right then balance + 1
                 else if tok u = left then balance - 1 else balance) ?ti = Inr (ok, ti')"
          by (simp add: skip_to_left_loop.simps [of left right balance ti])
        from "1.IH" [OF False gb [symmetric] refl u this]
        show ?thesis by simp
      qed
    qed
  qed
  have pair: "token_index ti' \<le> token_index ti"
    if "skip_to_balanced_pair ti = Inr (ok, ti')" for ti ok ti'
    using that loop
    by (auto simp: skip_to_balanced_pair_def skip_to_left_def split: sum.splits if_splits)
  from sw have "extract_go_expr_switch prev it1 = Inr (True, it2)"
    by simp
  then have "token_index it2 \<le> token_index it1"
    by (auto simp: extract_go_expr_switch_def split: sum.splits if_splits dest: pair)
  moreover from stepped have "0 < token_index it" "token_index it1 = token_index it - 1"
    by (auto simp: go_back_def split: if_splits)
  ultimately show "((orig, tok t, it2), (orig, prev, it)) \<in>
      measure (\<lambda>(orig, prev, this). nat (token_index this))"
    by simp
qed

declare extract_go_expr_loop.simps [simp del]

definition extract_go_expr :: "token_iterator \<Rightarrow> error + string" where
  "extract_go_expr this =
     (case token this of
        Inl e \<Rightarrow> Inl e
      | Inr t \<Rightarrow> extract_go_expr_loop (token_index this) (tok t) this)"

section \<open>The scanner (package go/scanner of the Go standard library)\<close>

text \<open>
  \<^verbatim>\<open>Scanner.Scan\<close> is called until it returns \<^verbatim>\<open>token.EOF\<close>. What the scanner returns for
  a source is a finite sequence of tokens, each with the byte offset at which it starts,
  its kind and its literal text; after the last one, \<^verbatim>\<open>Scan\<close> returns \<^verbatim>\<open>EOF\<close>. The scanner
  is not code of this program: the functions below take it as a parameter, and the
  general theorems hold for every scanner.
\<close>

type_synonym lexeme = "nat \<times> Token \<times> string"

type_synonym scanner = "string \<Rightarrow> lexeme list"

text \<open>
  For the sources that the specification gives as examples, \<open>go_scanner\<close> follows
  \<^verbatim>\<open>Scanner.Scan\<close> with mode 0 and no error handler on a fragment of the lexical
  grammar: white space, identifiers and keywords of ASCII letters and digits, runs of
  decimal digits (\<^verbatim>\<open>INT\<close>), interpreted string literals (also unterminated ones, which
  the scanner returns as \<^verbatim>\<open>STRING\<close> up to the end of the line or of the file), operators
  and delimiters, and the automatic semicolons. At a lexeme outside the fragment (a
  comment, a rune or raw string literal, any other form of number, a byte that is not
  ASCII or that starts no token, and the forms on which the releases of the library
  differ: two periods with no third, and the tilde) the rest of the scan is the parameter
  \<open>other\<close>, about which nothing is assumed.
\<close>

definition isLetter :: "char \<Rightarrow> bool" where
  "isLetter ch =
     (let c = (of_char ch :: nat) in (97 \<le> c \<and> c \<le> 122) \<or> (65 \<le> c \<and> c \<le> 90) \<or> c = 95)"

definition isDecimal :: "char \<Rightarrow> bool" where
  "isDecimal ch = (let c = (of_char ch :: nat) in 48 \<le> c \<and> c \<le> 57)"

definition token_keywords :: "(string \<times> Token) list" where
  "token_keywords =
    [(''break'', BREAK), (''case'', CASE), (''chan'', CHAN), (''const'', CONST_tok),
     (''continue'', CONTINUE), (''default'', DEFAULT), (''defer'', DEFER), (''else'', ELSE),
     (''fallthrough'', FALLTHROUGH), (''for'', FOR), (''func'', FUNC), (''go'', GO),
     (''goto'', GOTO), (''if'', IF), (''import'', IMPORT), (''interface'', INTERFACE),
     (''map'', MAP), (''package'', PACKAGE), (''range'', RANGE), (''return'', RETURN),
     (''select'', SELECT), (''struct'', STRUCT), (''switch'', SWITCH), (''type'', TYPE_tok),
     (''var'', VAR)]"

definition Lookup :: "string \<Rightarrow> Token" where
  "Lookup ident = (case map_of token_keywords ident of Some tk \<Rightarrow> tk | None \<Rightarrow> IDENT)"

text \<open>
  \<^verbatim>\<open>scanString\<close>, called after the opening quote: the number of bytes up to and including
  the closing quote, or up to the end of the line or of the input when there is none. A
  backslash takes a following quote or backslash with it.
\<close>

fun scanString :: "string \<Rightarrow> nat" where
  "scanString [] = 0"
| "scanString [ch] = (if ch = CHR 0x0A then 0 else 1)"
| "scanString (ch # c # rest) =
     (if ch = CHR 0x0A then 0
      else if ch = CHR 0x22 then 1
      else if ch = CHR 0x5C \<and> (c = CHR 0x22 \<or> c = CHR 0x5C) then 2 + scanString rest
      else 1 + scanString (c # rest))"

text \<open>
  The helpers \<^verbatim>\<open>switch2\<close>, \<^verbatim>\<open>switch3\<close> and \<^verbatim>\<open>switch4\<close> of the scanner choose among the
  operators that share a first character; here they return the token and the number of
  further bytes it takes.
\<close>

definition switch2 :: "Token \<Rightarrow> Token \<Rightarrow> string \<Rightarrow> Token \<times> nat" where
  "switch2 tok0 tok1 rest = (if take 1 rest = ''='' then (tok1, 1) else (tok0, 0))"

definition switch3 :: "Token \<Rightarrow> Token \<Rightarrow> char \<Rightarrow> Token \<Rightarrow> string \<Rightarrow> Token \<times> nat" where
  "switch3 tok0 tok1 ch2 tok2 rest =
     (if take 1 rest = ''='' then (tok1, 1)
      else if take 1 rest = [ch2] then (tok2, 1)
      else (tok0, 0))"

definition switch4 ::
  "Token \<Rightarrow> Token \<Rightarrow> char \<Rightarrow> Token \<Rightarrow> Token \<Rightarrow> string \<Rightarrow> Token \<times> nat" where
  "switch4 tok0 tok1 ch2 tok2 tok3 rest =
     (if take 1 rest = ''='' then (tok1, 1)
      else if take 1 rest = [ch2]
        then (if take 1 (drop 1 rest) = ''='' then (tok3, 2) else (tok2, 1))
      else (tok0, 0))"

text \<open>
  The operators and delimiters of the \<^verbatim>\<open>switch ch\<close> in \<^verbatim>\<open>Scan\<close>; \<open>None\<close> where the
  character starts a lexeme outside the fragment.
\<close>

definition scanOperator :: "char \<Rightarrow> string \<Rightarrow> (Token \<times> nat) option" where
  "scanOperator ch rest =
     (if ch = CHR '':'' then Some (switch2 COLON DEFINE rest)
      else if ch = CHR ''.'' then
        (if rest \<noteq> [] \<and> isDecimal (hd rest) then None
         else if take 2 rest = ''..'' then Some (ELLIPSIS, 2)
         else if take 1 rest = ''.'' then None
         else Some (PERIOD, 0))
      else if ch = CHR '','' then Some (COMMA, 0)
      else if ch = CHR '';'' then Some (SEMICOLON, 0)
      else if ch = CHR ''('' then Some (LPAREN, 0)
      else if ch = CHR '')'' then Some (RPAREN, 0)
      else if ch = CHR ''['' then Some (LBRACK, 0)
      else if ch = CHR '']'' then Some (RBRACK, 0)
      else if ch = CHR ''{'' then Some (LBRACE, 0)
      else if ch = CHR ''}'' then Some (RBRACE, 0)
      else if ch = CHR ''+'' then Some (switch3 ADD ADD_ASSIGN (CHR ''+'') INC rest)
      else if ch = CHR ''-'' then Some (switch3 SUB SUB_ASSIGN (CHR ''-'') DEC rest)
      else if ch = CHR ''*'' then Some (switch2 MUL MUL_ASSIGN rest)
      else if ch = CHR ''/'' then
        (if take 1 rest = ''/'' \<or> take 1 rest = ''*'' then None
         else Some (switch2 QUO QUO_ASSIGN rest))
      else if ch = CHR ''%'' then Some (switch2 REM REM_ASSIGN rest)
      else if ch = CHR ''^'' then Some (switch2 XOR XOR_ASSIGN rest)
      else if ch = CHR ''<'' then
        (if take 1 rest = ''-'' then Some (ARROW, 1)
         else Some (switch4 LSS LEQ (CHR ''<'') SHL SHL_ASSIGN rest))
      else if ch = CHR ''>'' then Some (switch4 GTR GEQ (CHR ''>'') SHR SHR_ASSIGN rest)
      else if ch = CHR ''='' then Some (switch2 ASSIGN EQL rest)
      else if ch = CHR ''!'' then Some (switch2 NOT NEQ rest)
      else if ch = CHR ''&'' then
        (if take 1 rest = ''^''
         then (case switch2 AND_NOT AND_NOT_ASSIGN (drop 1 rest) of (tk, n) \<Rightarrow> Some (tk, n + 1))
         else Some (switch3 AND AND_ASSIGN (CHR ''&'') LAND rest))
      else if ch = CHR ''|'' then Some (switch3 OR OR_ASSIGN (CHR ''|'') LOR rest)
      else None)"

text \<open>
  The tokens from byte offset \<open>offs\<close> on, where \<open>insertSemi\<close> is the scanner's field of
  that name: set after a token that may end a statement, it turns the next newline, or
  the end of the input, into a \<^verbatim>\<open>SEMICOLON\<close> with the literal \<^verbatim>\<open>"\n"\<close>.
\<close>

function go_scan ::
  "(nat \<Rightarrow> bool \<Rightarrow> string \<Rightarrow> lexeme list) \<Rightarrow> nat \<Rightarrow> bool \<Rightarrow> string \<Rightarrow> lexeme list" where
  "go_scan other offs insertSemi [] =
     (if insertSemi then [(offs, SEMICOLON, [CHR 0x0A])] else [])"
| "go_scan other offs insertSemi (ch # rest) =
     (if ch = CHR '' '' \<or> ch = CHR 0x09 \<or> (ch = CHR 0x0A \<and> \<not> insertSemi) \<or> ch = CHR 0x0D
      then go_scan other (offs + 1) insertSemi rest
      else if isLetter ch then
        (let lt = ch # takeWhile (\<lambda>c. isLetter c \<or> isDecimal c) rest;
             rest' = dropWhile (\<lambda>c. isLetter c \<or> isDecimal c) rest;
             tk = (if length lt > 1 then Lookup lt else IDENT)
         in if rest' \<noteq> [] \<and> (of_char (hd rest') :: nat) \<ge> 128
            then other offs insertSemi (ch # rest)
            else (offs, tk, lt) #
                 go_scan other (offs + length lt)
                   (tk = IDENT \<or> tk = BREAK \<or> tk = CONTINUE \<or> tk = FALLTHROUGH \<or> tk = RETURN)
                   rest')
      else if isDecimal ch then
        (let lt = ch # takeWhile isDecimal rest;
             rest' = dropWhile isDecimal rest
         in if rest' \<noteq> [] \<and> (isLetter (hd rest') \<or> hd rest' = CHR ''.'')
            then other offs insertSemi (ch # rest)
            else (offs, INT_tok, lt) # go_scan other (offs + length lt) True rest')
      else if ch = CHR 0x0A then
        (offs, SEMICOLON, [CHR 0x0A]) # go_scan other (offs + 1) False rest
      else if ch = CHR 0x22 then
        (let n = scanString rest
         in (offs, STRING, ch # take n rest) # go_scan other (offs + 1 + n) True (drop n rest))
      else
        (case scanOperator ch rest of
           None \<Rightarrow> other offs insertSemi (ch # rest)
         | Some (tk, n) \<Rightarrow>
             (offs, tk, if tk = SEMICOLON then '';'' else '''') #
             go_scan other (offs + 1 + n)
               (tk = INC \<or> tk = DEC \<or> tk = RPAREN \<or> tk = RBRACK \<or> tk = RBRACE)
               (drop n rest)))"
  by pat_completeness auto
termination
  by (relation "measure (\<lambda>(other, offs, insertSemi, src). length src)")
     (auto simp: less_Suc_eq_le length_dropWhile_le)

declare go_scan.simps [simp del]

definition go_scanner :: "(nat \<Rightarrow> bool \<Rightarrow> string \<Rightarrow> lexeme list) \<Rightarrow> scanner" where
  "go_scanner other src = go_scan other 0 False src"

section \<open>Building the iterator\<close>

text \<open>
  A \<^verbatim>\<open>token.File\<close> with its base and size. A new \<^verbatim>\<open>FileSet\<close> has base 1, so the file
  that \<^verbatim>\<open>new_token_iterator\<close> adds has base 1 and the position of byte offset \<open>n\<close> is
  \<open>1 + n\<close>; \<^verbatim>\<open>token.NoPos\<close> is 0. \<^verbatim>\<open>File.Pos\<close> panics on an offset beyond the size, as
  in the releases of Go that the program was written for (later ones clamp the offset);
  the statements below that depend on it take the cursor inside the source.
\<close>

record File =
  file_base :: int
  file_size :: int

definition NoPos :: int where
  "NoPos = 0"

definition FileSet_Base :: int where
  "FileSet_Base = 1"

definition File_Pos :: "File \<Rightarrow> int \<Rightarrow> error + int" where
  "File_Pos f offset =
     (if offset > file_size f then Inl IllegalFileOffset else Inr (file_base f + offset))"

text \<open>
  The \<^verbatim>\<open>for\<close> loop of \<^verbatim>\<open>new_token_iterator\<close> over the tokens that \<^verbatim>\<open>Scan\<close> returns, each
  at position \<^verbatim>\<open>file.Pos(offset)\<close>; when they are used up, \<^verbatim>\<open>Scan\<close> returns \<^verbatim>\<open>EOF\<close>.
\<close>

fun scan_loop ::
  "File \<Rightarrow> int \<Rightarrow> lexeme list \<Rightarrow> token_item list \<Rightarrow> int \<Rightarrow> token_item list \<times> int" where
  "scan_loop file cursorPos [] toks lastPos = (toks, lastPos)"
| "scan_loop file cursorPos ((offs, tk, lt) # s) toks lastPos =
     (let pos = file_base file + int offs
      in if tk = EOF \<or> pos \<ge> cursorPos then (toks, lastPos)
         else scan_loop file cursorPos s (toks @ [\<lparr>tok = tk, lit = lt\<rparr>]) pos)"

definition new_token_iterator ::
  "scanner \<Rightarrow> string \<Rightarrow> int \<Rightarrow> error + (token_iterator \<times> int)" where
  "new_token_iterator scan src cursor =
     (let file = \<lparr>file_base = FileSet_Base, file_size = int (length src)\<rparr>
      in case File_Pos file cursor of
           Inl e \<Rightarrow> Inl e
         | Inr cursorPos \<Rightarrow>
             (case scan_loop file cursorPos (scan src) [] NoPos of
                (toks, lastPos) \<Rightarrow>
                  Inr (\<lparr>tokens = toks, token_index = int (length toks) - 1\<rparr>,
                       cursorPos - lastPos)))"

section \<open>The context classifier\<close>

datatype cursorContext =
  unknownContext | importContext | selectContext | compositeLiteralContext

text \<open>
  The loop that looks for the \<^verbatim>\<open>import\<close> keyword before a string literal: \<open>True\<close> where
  the source returns \<^verbatim>\<open>importContext\<close>, \<open>False\<close> where it leaves the loop by \<^verbatim>\<open>break\<close>.
\<close>

function import_loop :: "token_iterator \<Rightarrow> error + bool" where
  "import_loop iter =
     (case go_back iter of
        (False, iter1) \<Rightarrow> Inr False
      | (True, iter1) \<Rightarrow>
     (case token iter1 of
        Inl e \<Rightarrow> Inl e
      | Inr t1 \<Rightarrow>
     (case (if tok t1 = IDENT \<or> tok t1 = PERIOD then go_back iter1 else (True, iter1)) of
        (False, iter2) \<Rightarrow> Inr False
      | (True, iter2) \<Rightarrow>
     (case token iter2 of
        Inl e \<Rightarrow> Inl e
      | Inr t2 \<Rightarrow>
     if tok t2 = SEMICOLON then
       (case go_back iter2 of
          (False, iter3) \<Rightarrow> Inr False
        | (True, iter3) \<Rightarrow>
            (case token iter3 of
               Inl e \<Rightarrow> Inl e
             | Inr t3 \<Rightarrow> if tok t3 \<noteq> STRING then Inr False else import_loop iter3))
     else
       (case (if tok t2 = LPAREN then go_back iter2 else (True, iter2)) of
          (False, iter4) \<Rightarrow> Inr False
        | (True, iter4) \<Rightarrow>
            (case token iter4 of
               Inl e \<Rightarrow> Inl e
             | Inr t4 \<Rightarrow> Inr (tok t4 = IMPORT)))))))"
  by pat_completeness auto
termination
  by (relation "measure (\<lambda>iter. nat (token_index iter))")
     (auto simp: go_back_def split: if_splits)

declare import_loop.simps [simp del]

text \<open>The second \<^verbatim>\<open>switch\<close> of \<^verbatim>\<open>deduce_cursor_context_helper\<close>, on the current token.\<close>

definition context_switch ::
  "token_iterator \<Rightarrow> string \<Rightarrow> error + (cursorContext \<times> string \<times> string)" where
  "context_switch iter partial =
     (case token iter of
        Inl e \<Rightarrow> Inl e
      | Inr t \<Rightarrow>
          if tok t = PERIOD then
            (case extract_go_expr iter of
               Inl e \<Rightarrow> Inl e
             | Inr s \<Rightarrow> Inr (selectContext, s, partial))
          else if tok t = COMMA \<or> tok t = LBRACE then
            (case extract_struct_type iter of
               Inl e \<Rightarrow> Inl e
             | Inr s \<Rightarrow> Inr (compositeLiteralContext, s, partial))
          else Inr (unknownContext, '''', partial))"

definition deduce_cursor_context_helper ::
  "scanner \<Rightarrow> string \<Rightarrow> int \<Rightarrow> error + (cursorContext \<times> string \<times> string)" where
  "deduce_cursor_context_helper scan file cursor =
     (case new_token_iterator scan file cursor of
        Inl e \<Rightarrow> Inl e
      | Inr (iter, off) \<Rightarrow>
     if length (tokens iter) = 0 then Inr (unknownContext, '''', '''')
     else
     (case token iter of
        Inl e \<Rightarrow> Inl e
      | Inr tk \<Rightarrow>
     if tok tk = STRING then
       (let path = literal tk
        in if off \<ge> int (length path) then Inr (unknownContext, '''', '''')
           else (case import_loop iter of
                   Inl e \<Rightarrow> Inl e
                 | Inr False \<Rightarrow> Inr (unknownContext, '''', '''')
                 | Inr True \<Rightarrow>
                     (case slice path 1 off of
                        Inl e \<Rightarrow> Inl e
                      | Inr p \<Rightarrow> Inr (importContext, '''', p))))
     else if tok tk = IDENT \<or> tok tk = TYPE_tok \<or> tok tk = CONST_tok \<or> tok tk = VAR
             \<or> tok tk = FUNC \<or> tok tk = PACKAGE then
       (if tok tk = IDENT \<and> off > int (length (literal tk))
        then Inr (unknownContext, '''', '''')
        else (case (if tok tk = IDENT then slice (literal tk) 0 off else Inr (literal tk)) of
                Inl e \<Rightarrow> Inl e
              | Inr partial \<Rightarrow>
                  (case go_back iter of
                     (False, iter') \<Rightarrow> Inr (unknownContext, '''', partial)
                   | (True, iter') \<Rightarrow> context_switch iter' partial)))
     else context_switch iter ''''))"

section \<open>Notions used in the statements\<close>

text \<open>The invariant of the iterator: the read index is a position of the token slice.\<close>

definition index_in_range :: "token_iterator \<Rightarrow> bool" where
  "index_in_range ti = (0 \<le> token_index ti \<and> token_index ti < int (length (tokens ti)))"

text \<open>
  The tokens that \<^verbatim>\<open>new_token_iterator\<close> collects: those the scanner returns before its
  first \<^verbatim>\<open>EOF\<close> and before the first token that starts at or after the cursor.
\<close>

definition item_of :: "lexeme \<Rightarrow> token_item" where
  "item_of x = (case x of (offs, tk, lt) \<Rightarrow> \<lparr>tok = tk, lit = lt\<rparr>)"

definition collected :: "lexeme list \<Rightarrow> int \<Rightarrow> lexeme list" where
  "collected s cursor = takeWhile (\<lambda>(offs, tk, lt). tk \<noteq> EOF \<and> int offs < cursor) s"

text \<open>
  A scanner parameter for closed statements: outside the fragment of \<open>go_scan\<close> the scan
  ends. None of the sources used below leaves the fragment.
\<close>

definition stop_scan :: "nat \<Rightarrow> bool \<Rightarrow> string \<Rightarrow> lexeme list" where
  "stop_scan offs insertSemi src = []"

subsection \<open>Nesting of brackets\<close>

definition is_opener :: "Token \<Rightarrow> bool" where
  "is_opener t = (t = LPAREN \<or> t = LBRACK \<or> t = LBRACE)"

definition is_closer :: "Token \<Rightarrow> bool" where
  "is_closer t = (t = RPAREN \<or> t = RBRACK \<or> t = RBRACE)"

text \<open>
  The usual left-to-right check of nesting with a stack, on the token kinds from position
  \<open>n\<close> on: an opening bracket is pushed with its position, a closing bracket must find
  its own kind of opening bracket on top of the stack and pops it. The result is the stack
  of the brackets still open at the end, or \<open>None\<close> when a closing bracket does not match.
\<close>

fun nest :: "(nat \<times> Token) list \<Rightarrow> nat \<Rightarrow> Token list \<Rightarrow> (nat \<times> Token) list option" where
  "nest st n [] = Some st"
| "nest st n (t # ts) =
     (if is_opener t then nest ((n, t) # st) (Suc n) ts
      else if is_closer t then
        (case st of
           [] \<Rightarrow> None
         | (j, l) # st' \<Rightarrow> if l = bracket_pairs_map t then nest st' (Suc n) ts else None)
      else nest st (Suc n) ts)"

text \<open>
  The tokens before a cursor are properly nested when every closing bracket matches; the
  brackets still open at the cursor are no fault.
\<close>

definition properly_nested :: "Token list \<Rightarrow> bool" where
  "properly_nested ks = (nest [] 0 ks \<noteq> None)"

text \<open>
  The syntactic opener of the closing bracket at position \<open>i\<close>: the bracket on top of the
  stack when the check reaches \<open>i\<close>.
\<close>

definition matching_opener :: "Token list \<Rightarrow> nat \<Rightarrow> nat option" where
  "matching_opener ks i =
     (case nest [] 0 (take i ks) of
        Some ((j, l) # st) \<Rightarrow> Some j
      | _ \<Rightarrow> None)"

text \<open>
  For the proofs: the token sequences in which every bracket has its partner, by their
  grammar, and the tokens of a sequence from position \<open>a\<close> up to position \<open>b\<close>.
\<close>

inductive balanced :: "Token list \<Rightarrow> bool" where
  empty: "balanced []"
| other: "balanced u \<Longrightarrow> \<not> is_opener t \<Longrightarrow> \<not> is_closer t \<Longrightarrow> balanced (u @ [t])"
| pair: "balanced u \<Longrightarrow> balanced v \<Longrightarrow> is_closer r \<Longrightarrow>
         balanced (u @ bracket_pairs_map r # v @ [r])"

definition seg :: "'a list \<Rightarrow> nat \<Rightarrow> nat \<Rightarrow> 'a list" where
  "seg xs a b = take (b - a) (drop a xs)"

text \<open>
  What the stack of the nesting check knows at position \<open>m\<close>: each entry is the bracket at
  its position, and the tokens between it and the entry above it (or \<open>m\<close>) are balanced.
\<close>

fun stack_inv :: "Token list \<Rightarrow> (nat \<times> Token) list \<Rightarrow> nat \<Rightarrow> bool" where
  "stack_inv ks [] m = True"
| "stack_inv ks ((j, l) # st) m =
     (j < m \<and> ks ! j = l \<and> balanced (seg ks (Suc j) m) \<and> stack_inv ks st j)"

subsection \<open>Token sequences for the closed statements\<close>

text \<open>The tokens of \<^verbatim>\<open>f(a[i], g{x})\<close>, of \<^verbatim>\<open>x)\<close> and of \<^verbatim>\<open>pkg.Point{\<close>.\<close>

definition nested_tokens :: "token_item list" where
  "nested_tokens =
    [\<lparr>tok = IDENT, lit = ''f''\<rparr>, \<lparr>tok = LPAREN, lit = ''''\<rparr>,
     \<lparr>tok = IDENT, lit = ''a''\<rparr>, \<lparr>tok = LBRACK, lit = ''''\<rparr>,
     \<lparr>tok = IDENT, lit = ''i''\<rparr>, \<lparr>tok = RBRACK, lit = ''''\<rparr>,
     \<lparr>tok = COMMA, lit = ''''\<rparr>, \<lparr>tok = IDENT, lit = ''g''\<rparr>,
     \<lparr>tok = LBRACE, lit = ''''\<rparr>, \<lparr>tok = IDENT, lit = ''x''\<rparr>,
     \<lparr>tok = RBRACE, lit = ''''\<rparr>, \<lparr>tok = RPAREN, lit = ''''\<rparr>]"

definition unbalanced_tokens :: "token_item list" where
  "unbalanced_tokens = [\<lparr>tok = IDENT, lit = ''x''\<rparr>, \<lparr>tok = RPAREN, lit = ''''\<rparr>]"

definition qualified_tokens :: "token_item list" where
  "qualified_tokens =
    [\<lparr>tok = IDENT, lit = ''pkg''\<rparr>, \<lparr>tok = PERIOD, lit = ''''\<rparr>,
     \<lparr>tok = IDENT, lit = ''Point''\<rparr>, \<lparr>tok = LBRACE, lit = ''''\<rparr>]"

section \<open>The iterator stays in range\<close>

lemma token_in_range:
  "index_in_range ti \<Longrightarrow> token ti = Inr (tokens ti ! nat (token_index ti))"
  by (simp add: token_def index_in_range_def)

lemma go_back_in_range:
  assumes "index_in_range ti" "go_back ti = (ok, ti')"
  shows "index_in_range ti' \<and> tokens ti' = tokens ti \<and> token_index ti' \<le> token_index ti"
  using assms by (auto simp: go_back_def index_in_range_def split: if_splits)

lemma go_back_True:
  "go_back ti = (True, ti') \<Longrightarrow> ti' = ti\<lparr>token_index := token_index ti - 1\<rparr> \<and> 0 < token_index ti"
  by (auto simp: go_back_def split: if_splits)

lemma skip_to_left_loop_in_range:
  assumes "index_in_range ti"
  shows "\<exists>ok ti'. skip_to_left_loop left right balance ti = Inr (ok, ti')
           \<and> index_in_range ti' \<and> tokens ti' = tokens ti
           \<and> token_index ti' \<le> token_index ti \<and> (\<not> ok \<longrightarrow> token_index ti' = 0)"
  using assms
proof (induction left right balance ti rule: skip_to_left_loop.induct)
  case (1 left right balance ti)
  show ?case
  proof (cases "balance = 0")
    case True
    with "1.prems" show ?thesis
      by (auto simp: skip_to_left_loop.simps)
  next
    case nz: False
    show ?thesis
    proof (cases "token_index ti \<le> 0")
      case True
      with nz "1.prems" show ?thesis
        by (auto simp: skip_to_left_loop.simps [of left right balance ti] go_back_def
            index_in_range_def)
    next
      case False
      let ?ti = "ti\<lparr>token_index := token_index ti - 1\<rparr>"
      from False have gb: "go_back ti = (True, ?ti)"
        by (simp add: go_back_def)
      from False "1.prems" have r: "index_in_range ?ti"
        by (simp add: index_in_range_def)
      then obtain u where u: "token ?ti = Inr u"
        by (simp add: token_in_range)
      let ?b = "if tok u = right then balance + 1 else if tok u = left then balance - 1 else balance"
      from "1.IH" [OF nz gb [symmetric] refl u r]
      obtain ok ti' where res: "skip_to_left_loop left right ?b ?ti = Inr (ok, ti')"
        and props: "index_in_range ti'" "tokens ti' = tokens ti"
          "token_index ti' \<le> token_index ti" "\<not> ok \<longrightarrow> token_index ti' = 0"
        by auto
      from nz gb u res have "skip_to_left_loop left right balance ti = Inr (ok, ti')"
        by (simp add: skip_to_left_loop.simps [of left right balance ti])
      with props show ?thesis
        by blast
    qed
  qed
qed



lemma skip_to_left_in_range:
  assumes "index_in_range ti"
  shows "\<exists>ok ti'. skip_to_left left right ti = Inr (ok, ti')
           \<and> index_in_range ti' \<and> tokens ti' = tokens ti
           \<and> token_index ti' \<le> token_index ti \<and> (\<not> ok \<longrightarrow> token_index ti' = 0)"
proof (cases "tok (tokens ti ! nat (token_index ti)) = left")
  case True
  with assms have "skip_to_left left right ti = Inr (True, ti)"
    by (simp add: skip_to_left_def token_in_range)
  with assms show ?thesis
    by blast
next
  case False
  with assms have "skip_to_left left right ti = skip_to_left_loop left right 1 ti"
    by (simp add: skip_to_left_def token_in_range)
  with skip_to_left_loop_in_range [OF assms, of left right 1] show ?thesis
    by simp
qed

lemma skip_to_balanced_pair_in_range:
  assumes "index_in_range ti"
  shows "\<exists>ok ti'. skip_to_balanced_pair ti = Inr (ok, ti')
           \<and> index_in_range ti' \<and> tokens ti' = tokens ti
           \<and> token_index ti' \<le> token_index ti"
proof -
  let ?r = "tok (tokens ti ! nat (token_index ti))"
  from assms have "skip_to_balanced_pair ti = skip_to_left (bracket_pairs_map ?r) ?r ti"
    by (simp add: skip_to_balanced_pair_def token_in_range)
  with skip_to_left_in_range [OF assms, of "bracket_pairs_map ?r" ?r] show ?thesis
    by metis
qed


lemma extract_go_expr_switch_in_range:
  assumes "index_in_range it"
  shows "\<exists>ok it'. extract_go_expr_switch prev it = Inr (ok, it')
           \<and> index_in_range it' \<and> tokens it' = tokens it
           \<and> token_index it' \<le> token_index it"
    (is "?P (extract_go_expr_switch prev it)")
proof -
  let ?t = "tokens it ! nat (token_index it)"
  have t: "token it = Inr ?t"
    using assms by (rule token_in_range)
  have same: "?P (Inr (c, it))" for c
    using assms by simp
  have skip: "?P (case skip_to_balanced_pair it of
                    Inl e \<Rightarrow> Inl e | Inr (found, this') \<Rightarrow> Inr (True, this'))"
    using skip_to_balanced_pair_in_range [OF assms] by auto
  have cond: "?P (if c then a else b)" if "?P a" "?P b" for c a b
    using that by (cases c) simp_all
  show ?thesis
    by (simp only: extract_go_expr_switch_def t sum.case) (intro cond same skip)
qed

lemma extract_go_expr_loop_in_range:
  assumes "index_in_range it" "token_index it \<le> orig" "orig \<le> int (length (tokens it))"
  shows "\<exists>s. extract_go_expr_loop orig prev it = Inr s"
  using assms
proof (induction orig prev it rule: extract_go_expr_loop.induct)
  case (1 orig prev it)
  show ?case
  proof (cases "go_back it")
    case (Pair went it1)
    note gb = go_back_in_range [OF "1.prems"(1) Pair]
    show ?thesis
    proof (cases went)
      case False
      with Pair "1.prems" gb show ?thesis
        by (simp add: extract_go_expr_loop.simps [of orig prev it] slice_def index_in_range_def)
    next
      case True
      with Pair have lt: "token_index it1 = token_index it - 1"
        by (auto dest: go_back_True)
      from gb obtain cont it2 where sw: "extract_go_expr_switch prev it1 = Inr (cont, it2)"
        and r2: "index_in_range it2" "tokens it2 = tokens it1"
          "token_index it2 \<le> token_index it1"
        using extract_go_expr_switch_in_range [of it1 prev] by blast
      show ?thesis
      proof (cases cont)
        case False
        with Pair True sw r2 gb lt "1.prems" show ?thesis
          by (simp add: extract_go_expr_loop.simps [of orig prev it] slice_def
              index_in_range_def)
      next
        case cont: True
        from r2 obtain t where t: "token it2 = Inr t"
          by (auto simp: token_in_range)
        have "\<exists>s. extract_go_expr_loop orig (tok t) it2 = Inr s"
        proof (rule "1.IH" [OF Pair [symmetric] _ sw refl _ t r2(1)])
          show "went = True" using True by simp
          show "cont = True" using cont by simp
          show "token_index it2 \<le> orig"
            using r2 lt "1.prems" by simp
          show "orig \<le> int (length (tokens it2))"
            using r2 gb "1.prems" by simp
        qed
        with Pair True sw cont t show ?thesis
          by (simp add: extract_go_expr_loop.simps [of orig prev it])
      qed
    qed
  qed
qed

lemma extract_go_expr_in_range:
  assumes "index_in_range it"
  shows "\<exists>s. extract_go_expr it = Inr s"
  using extract_go_expr_loop_in_range [of it "token_index it"] assms
  by (simp add: extract_go_expr_def token_in_range index_in_range_def)

lemma go_back_token:
  assumes "index_in_range b"
  obtains went c t where "go_back b = (went, c)" "token c = Inr t" "index_in_range c"
    "tokens c = tokens b"
proof -
  obtain went c where gb: "go_back b = (went, c)"
    by (cases "go_back b")
  from go_back_in_range [OF assms gb] token_in_range [of c] gb that show thesis
    by blast
qed

lemma extract_struct_type_in_range:
  assumes "index_in_range ti"
  shows "\<exists>s. extract_struct_type ti = Inr s"
proof -
  obtain ok ti0 where s: "skip_to_left_curly ti = Inr (ok, ti0)" and r0: "index_in_range ti0"
    using skip_to_left_in_range [OF assms, of LBRACE RBRACE]
    by (auto simp: skip_to_left_curly_def)
  from r0 obtain w1 ti1 t1 where g1: "go_back ti0 = (w1, ti1)" "token ti1 = Inr t1"
    and r1: "index_in_range ti1"
    by (rule go_back_token)
  from r1 obtain w2 ti2 t2 where g2: "go_back ti1 = (w2, ti2)" "token ti2 = Inr t2"
    and r2: "index_in_range ti2"
    by (rule go_back_token)
  from r2 obtain w3 ti3 t3 where g3: "go_back ti2 = (w3, ti3)" "token ti3 = Inr t3"
    by (rule go_back_token)
  show ?thesis
    by (simp add: extract_struct_type_def s g1 g2 g3 Let_def split: bool.split)
qed

lemma optional_go_back_token:
  assumes "index_in_range b"
  obtains went c t where "(if cond then go_back b else (True, b)) = (went, c)"
    "token c = Inr t" "index_in_range c" "token_index c \<le> token_index b"
proof (cases cond)
  case True
  obtain went c where gb: "go_back b = (went, c)"
    by (cases "go_back b")
  from go_back_in_range [OF assms gb] token_in_range [of c] gb True that show thesis
    by auto
next
  case False
  with assms token_in_range [of b] that show thesis
    by auto
qed

lemma import_loop_in_range:
  assumes "index_in_range iter"
  shows "\<exists>b. import_loop iter = Inr b"
  using assms
proof (induction "nat (token_index iter)" arbitrary: iter rule: less_induct)
  case less
  obtain w1 iter1 where g1: "go_back iter = (w1, iter1)"
    by (cases "go_back iter")
  note r1 = go_back_in_range [OF less.prems g1]
  then obtain t1 where t1: "token iter1 = Inr t1"
    by (auto simp: token_in_range)
  from r1 obtain w2 iter2 t2
    where g2: "(if tok t1 = IDENT \<or> tok t1 = PERIOD then go_back iter1 else (True, iter1))
                = (w2, iter2)"
      and t2: "token iter2 = Inr t2" and r2: "index_in_range iter2"
      and i2: "token_index iter2 \<le> token_index iter1"
    using optional_go_back_token [of iter1 "tok t1 = IDENT \<or> tok t1 = PERIOD"] by metis
  obtain w3 iter3 where g3: "go_back iter2 = (w3, iter3)"
    by (cases "go_back iter2")
  note r3 = go_back_in_range [OF r2 g3]
  then obtain t3 where t3: "token iter3 = Inr t3"
    by (auto simp: token_in_range)
  from r2 obtain w4 iter4 t4
    where g4: "(if tok t2 = LPAREN then go_back iter2 else (True, iter2)) = (w4, iter4)"
      and t4: "token iter4 = Inr t4"
    using optional_go_back_token [of iter2 "tok t2 = LPAREN"] by metis
  have rec: "\<exists>b. import_loop iter3 = Inr b" if "w1"
  proof -
    from that g1 have "token_index iter1 < token_index iter" "0 < token_index iter"
      by (auto dest: go_back_True)
    with i2 r3 have "nat (token_index iter3) < nat (token_index iter)"
      by simp
    from less.hyps [OF this] r3 show ?thesis
      by simp
  qed
  show ?case
  proof (cases w1)
    case False
    with g1 show ?thesis
      by (auto simp: import_loop.simps [of iter])
  next
    case True
    with rec obtain b where "import_loop iter3 = Inr b"
      by blast
    with True show ?thesis
      by (auto simp: import_loop.simps [of iter] g1 t1 g2 t2 g3 t3 g4 t4 split: bool.split)
  qed
qed

lemma context_switch_in_range:
  assumes "index_in_range iter"
  shows "\<exists>ctx expr. context_switch iter partial = Inr (ctx, expr, partial)"
proof -
  from assms obtain t where t: "token iter = Inr t"
    by (simp add: token_in_range)
  from extract_go_expr_in_range [OF assms] obtain s1 where s1: "extract_go_expr iter = Inr s1"
    by blast
  from extract_struct_type_in_range [OF assms] obtain s2
    where s2: "extract_struct_type iter = Inr s2"
    by blast
  show ?thesis
    by (simp add: context_switch_def t s1 s2)
qed

lemma scan_loop_collected:
  "scan_loop file (file_base file + cursor) s toks lastPos =
     (toks @ map item_of (collected s cursor),
      if collected s cursor = [] then lastPos
      else file_base file + int (fst (last (collected s cursor))))"
proof (induction s arbitrary: toks lastPos)
  case Nil
  show ?case
    by (simp add: collected_def)
next
  case (Cons x s)
  obtain offs tk lt where x: "x = (offs, tk, lt)"
    by (cases x)
  show ?case
    unfolding x
  proof (cases "tk \<noteq> EOF \<and> int offs < cursor")
    case True
    then have c: "collected ((offs, tk, lt) # s) cursor = (offs, tk, lt) # collected s cursor"
      by (simp add: collected_def)
    from True show "scan_loop file (file_base file + cursor) ((offs, tk, lt) # s) toks lastPos =
       (toks @ map item_of (collected ((offs, tk, lt) # s) cursor),
        if collected ((offs, tk, lt) # s) cursor = [] then lastPos
        else file_base file + int (fst (last (collected ((offs, tk, lt) # s) cursor))))"
      by (simp add: c Cons.IH item_of_def Let_def)
  next
    case False
    then have c: "collected ((offs, tk, lt) # s) cursor = []"
      by (auto simp: collected_def)
    from False show "scan_loop file (file_base file + cursor) ((offs, tk, lt) # s) toks lastPos =
       (toks @ map item_of (collected ((offs, tk, lt) # s) cursor),
        if collected ((offs, tk, lt) # s) cursor = [] then lastPos
        else file_base file + int (fst (last (collected ((offs, tk, lt) # s) cursor))))"
      by (auto simp add: c Let_def)
  qed
qed

lemma new_token_iterator_collected:
  assumes "cursor \<le> int (length src)"
  shows "new_token_iterator scan src cursor =
     Inr (\<lparr>tokens = map item_of (collected (scan src) cursor),
           token_index = int (length (collected (scan src) cursor)) - 1\<rparr>,
          if collected (scan src) cursor = [] then cursor + 1
          else cursor - int (fst (last (collected (scan src) cursor))))"
proof -
  let ?file = "\<lparr>file_base = FileSet_Base, file_size = int (length src)\<rparr>"
  have pos: "File_Pos ?file cursor = Inr (file_base ?file + cursor)"
    using assms by (simp add: File_Pos_def)
  show ?thesis
    by (simp add: new_token_iterator_def Let_def pos scan_loop_collected
        del: File.simps token_iterator.simps)
       (simp add: FileSet_Base_def NoPos_def)
qed

lemma new_token_iterator_beyond:
  assumes "\<not> cursor \<le> int (length src)"
  shows "new_token_iterator scan src cursor = Inl IllegalFileOffset"
  using assms by (simp add: new_token_iterator_def File_Pos_def Let_def)

lemma collected_last_before:
  assumes "collected s cursor \<noteq> []"
  shows "int (fst (last (collected s cursor))) < cursor"
proof -
  from assms have "last (collected s cursor) \<in> set (collected s cursor)"
    by simp
  then show ?thesis
    unfolding collected_def by (auto dest!: set_takeWhileD)
qed

lemma new_token_iterator_shape:
  assumes "new_token_iterator scan src cursor = Inr (iter, off)"
  shows "token_index iter = int (length (tokens iter)) - 1"
  using assms
  by (auto simp: new_token_iterator_def Let_def split: sum.splits prod.splits)

lemma last_token:
  assumes "token_index iter = int (length (tokens iter)) - 1" "tokens iter \<noteq> []"
  shows "index_in_range iter" "token iter = Inr (last (tokens iter))"
proof -
  from assms show r: "index_in_range iter"
    by (simp add: index_in_range_def)
  from assms have "nat (token_index iter) = length (tokens iter) - 1"
    by simp
  with assms r show "token iter = Inr (last (tokens iter))"
    by (simp add: token_in_range last_conv_nth)
qed

lemma deduce_defined:
  assumes "cursor \<le> int (length src)"
  shows "\<exists>r. deduce_cursor_context_helper scan src cursor = Inr r"
proof -
  let ?c = "collected (scan src) cursor"
  obtain iter off where nti: "new_token_iterator scan src cursor = Inr (iter, off)"
    and toks: "tokens iter = map item_of ?c"
    and off: "off = (if ?c = [] then cursor + 1 else cursor - int (fst (last ?c)))"
    using new_token_iterator_collected [OF assms, of scan] by simp
  show ?thesis
  proof (cases "tokens iter = []")
    case True
    then show ?thesis
      by (simp add: deduce_cursor_context_helper_def nti)
  next
    case False
    note lt = last_token [OF new_token_iterator_shape [OF nti] False]
    from False toks have "?c \<noteq> []"
      by auto
    with off collected_last_before [of "scan src" cursor] have pos: "0 < off"
      by simp
    obtain b where b: "import_loop iter = Inr b"
      using import_loop_in_range [OF lt(1)] by blast
    obtain w iter' where gb: "go_back iter = (w, iter')"
      by (cases "go_back iter")
    have cs: "\<exists>r. context_switch iter' p = Inr r" for p
      using context_switch_in_range [of iter' p] go_back_in_range [OF lt(1) gb] by blast
    have cs0: "\<exists>r. context_switch iter p = Inr r" for p
      using context_switch_in_range [of iter p] lt(1) by blast
    let ?tk = "last (tokens iter)"
    show ?thesis
    proof (cases "tok ?tk = STRING")
      case True
      with False pos show ?thesis
        by (cases b) (simp_all add: deduce_cursor_context_helper_def nti lt(2) b slice_def Let_def)
    next
      case ns: False
      show ?thesis
      proof (cases "tok ?tk = IDENT")
        case True
        with ns False pos cs show ?thesis
          by (cases w) (simp_all add: deduce_cursor_context_helper_def nti lt(2) gb slice_def)
      next
        case False
        with ns \<open>tokens iter \<noteq> []\<close> cs cs0 show ?thesis
          by (cases w) (simp_all add: deduce_cursor_context_helper_def nti lt(2) gb)
      qed
    qed
  qed
qed

lemma deduce_no_index_panic:
  "deduce_cursor_context_helper scan src cursor \<noteq> Inl IndexOutOfRange"
proof (cases "cursor \<le> int (length src)")
  case True
  from deduce_defined [OF this, of scan] show ?thesis
    by auto
next
  case False
  then show ?thesis
    by (simp add: deduce_cursor_context_helper_def new_token_iterator_beyond)
qed

lemma IDENT_not_STRING: "IDENT \<noteq> STRING"
  by (simp add: token_code)

lemma keyword_facts:
  assumes "tk = TYPE_tok \<or> tk = CONST_tok \<or> tk = VAR \<or> tk = FUNC \<or> tk = PACKAGE"
  shows "tk \<noteq> STRING" "tk \<noteq> IDENT" "\<not> IsLiteral tk"
  using assms by (auto simp: IsLiteral_def token_code)

lemma deduce_keyword_partial:
  assumes "new_token_iterator scan src cursor = Inr (iter, off)"
    and "tokens iter \<noteq> []"
    and kw: "tok (last (tokens iter)) = TYPE_tok \<or> tok (last (tokens iter)) = CONST_tok
          \<or> tok (last (tokens iter)) = VAR \<or> tok (last (tokens iter)) = FUNC
          \<or> tok (last (tokens iter)) = PACKAGE"
  shows "\<exists>ctx expr. deduce_cursor_context_helper scan src cursor
           = Inr (ctx, expr, Token_String (tok (last (tokens iter))))"
proof -
  note lt = last_token [OF new_token_iterator_shape [OF assms(1)] assms(2)]
  note kf = keyword_facts [OF kw]
  obtain w iter' where gb: "go_back iter = (w, iter')"
    by (cases "go_back iter")
  have cs: "\<exists>ctx expr. context_switch iter' p = Inr (ctx, expr, p)" for p
    using context_switch_in_range [of iter' p] go_back_in_range [OF lt(1) gb] by blast
  from kw kf cs assms(1,2) show ?thesis
    by (cases w) (simp_all add: deduce_cursor_context_helper_def lt(2) gb literal_def)
qed

section \<open>What the balancer finds\<close>

lemma skip_to_left_loop_found:
  assumes "0 < balance" "index_in_range ti"
    and "skip_to_left_loop left right balance ti = Inr (True, ti')"
  shows "tok (tokens ti ! nat (token_index ti')) = left \<and> token_index ti' < token_index ti
         \<and> 0 \<le> token_index ti'"
  using assms
proof (induction left right balance ti rule: skip_to_left_loop.induct)
  case (1 left right balance ti)
  from "1.prems" have nz: "balance \<noteq> 0"
    by simp
  show ?case
  proof (cases "token_index ti \<le> 0")
    case True
    with nz "1.prems" show ?thesis
      by (simp add: skip_to_left_loop.simps [of left right balance ti] go_back_def)
  next
    case False
    let ?ti = "ti\<lparr>token_index := token_index ti - 1\<rparr>"
    from False have gb: "go_back ti = (True, ?ti)"
      by (simp add: go_back_def)
    from False "1.prems" have r: "index_in_range ?ti"
      by (simp add: index_in_range_def)
    then have u: "token ?ti = Inr (tokens ti ! nat (token_index ti - 1))" (is "_ = Inr ?u")
      by (simp add: token_in_range)
    let ?b = "if tok ?u = right then balance + 1
              else if tok ?u = left then balance - 1 else balance"
    from nz gb u "1.prems"
    have res: "skip_to_left_loop left right ?b ?ti = Inr (True, ti')"
      by (simp add: skip_to_left_loop.simps [of left right balance ti])
    show ?thesis
    proof (cases "?b = 0")
      case True
      with res have "ti' = ?ti"
        by (simp add: skip_to_left_loop.simps [of left right 0 ?ti])
      moreover from True "1.prems"(1) have "tok ?u = left"
        by (auto split: if_splits)
      ultimately show ?thesis
        using False by simp
    next
      case nb: False
      with "1.prems"(1) have "0 < ?b"
        by (auto split: if_splits)
      from "1.IH" [OF nz gb [symmetric] refl u this r res] show ?thesis
        by simp
    qed
  qed
qed

lemma skip_to_left_found:
  assumes "index_in_range ti" "skip_to_left left right ti = Inr (True, ti')"
  shows "tok (tokens ti ! nat (token_index ti')) = left \<and> token_index ti' \<le> token_index ti
         \<and> 0 \<le> token_index ti'"
proof (cases "tok (tokens ti ! nat (token_index ti)) = left")
  case True
  with assms show ?thesis
    by (simp add: skip_to_left_def token_in_range index_in_range_def)
next
  case False
  with assms have "skip_to_left_loop left right 1 ti = Inr (True, ti')"
    by (simp add: skip_to_left_def token_in_range)
  from skip_to_left_loop_found [OF _ assms(1) this] show ?thesis
    by simp
qed

lemma skip_to_left_exhausted:
  assumes "index_in_range ti"
    and "\<forall>k \<le> nat (token_index ti). tok (tokens ti ! k) \<noteq> left"
  shows "skip_to_left left right ti = Inr (False, ti\<lparr>token_index := 0\<rparr>)"
proof -
  obtain ok ti' where res: "skip_to_left left right ti = Inr (ok, ti')"
    and same: "tokens ti' = tokens ti" and z: "\<not> ok \<longrightarrow> token_index ti' = 0"
    using skip_to_left_in_range [OF assms(1), of left right] by blast
  have "\<not> ok"
  proof
    assume ok
    with res skip_to_left_found [OF assms(1), of left right ti']
    have "tok (tokens ti ! nat (token_index ti')) = left" "token_index ti' \<le> token_index ti"
      by simp_all
    with assms(2) show False
      by (auto simp: nat_le_iff)
  qed
  with z same have "ti' = ti\<lparr>token_index := 0\<rparr>"
    by (cases ti, cases ti') simp
  with res \<open>\<not> ok\<close> show ?thesis
    by simp
qed

lemma extract_struct_type_result:
  assumes "index_in_range ti"
    and "skip_to_left_curly ti = Inr (True, ti0)"
    and "0 < token_index ti0"
    and "tok (tokens ti ! nat (token_index ti0 - 1)) = IDENT"
  shows "extract_struct_type ti =
     Inr (let j = nat (token_index ti0); b = literal (tokens ti ! (j - 1))
          in if 3 \<le> j \<and> tok (tokens ti ! (j - 2)) = PERIOD \<and> tok (tokens ti ! (j - 3)) = IDENT
             then literal (tokens ti ! (j - 3)) @ ''.'' @ b
             else b)"
proof -
  from skip_to_left_in_range [OF assms(1), of LBRACE RBRACE] assms(2)
  have r0: "index_in_range ti0" and same: "tokens ti0 = tokens ti"
    by (auto simp: skip_to_left_curly_def)
  define j where "j = nat (token_index ti0)"
  define toks where "toks = tokens ti"
  from assms(3) r0 same have j: "0 < j" "j < length toks" "token_index ti0 = int j"
    by (auto simp: j_def toks_def index_in_range_def)
  have ti0: "ti0 = \<lparr>tokens = toks, token_index = int j\<rparr>"
    using same j by (cases ti0) (simp add: toks_def)
  have ident: "tok (toks ! (j - 1)) = IDENT"
    using assms(4) j by (simp add: toks_def nat_diff_distrib)
  have n1: "nat (int j - 1) = j - 1" and n2: "nat (int j - 2) = j - 2"
    and n3: "nat (int j - 3) = j - 3"
    by simp_all
  have "extract_struct_type ti =
     Inr (if 3 \<le> j \<and> tok (toks ! (j - 2)) = PERIOD \<and> tok (toks ! (j - 3)) = IDENT
          then literal (toks ! (j - 3)) @ ''.'' @ literal (toks ! (j - 1))
          else literal (toks ! (j - 1)))"
    using j(1,2) ident
    by (auto simp: extract_struct_type_def assms(2) ti0 go_back_def token_def Let_def n1 n2 n3)
  then show ?thesis
    by (simp add: Let_def j_def [symmetric] toks_def [symmetric])
qed

section \<open>Balanced segments and the count of the balancer\<close>

lemma closer_facts:
  assumes "is_closer r"
  shows "is_opener (bracket_pairs_map r)" "bracket_pairs_map r \<noteq> r" "\<not> is_opener r"
  using assms
  by (auto simp: is_closer_def is_opener_def bracket_pairs_map_def token_code)

lemma opener_not_closer: "is_opener l \<Longrightarrow> \<not> is_closer l"
  by (auto simp: is_closer_def is_opener_def token_code)

lemma bracket_pairs_inj:
  assumes "is_closer r" "is_closer r'" "bracket_pairs_map r = bracket_pairs_map r'"
  shows "r = r'"
  using assms
  by (auto simp: is_closer_def bracket_pairs_map_def token_code split: if_splits)

lemma seg_empty [simp]: "seg xs a a = []"
  by (simp add: seg_def)

lemma seg_snoc:
  assumes "a \<le> b" "b < length xs"
  shows "seg xs a (Suc b) = seg xs a b @ [xs ! b]"
proof -
  from assms have "Suc b - a = Suc (b - a)" "b - a < length (drop a xs)"
    by auto
  then show ?thesis
    using assms by (simp add: seg_def take_Suc_conv_app_nth)
qed

lemma seg_Cons:
  assumes "a < b" "b \<le> length xs"
  shows "seg xs a b = xs ! a # seg xs (Suc a) b"
proof -
  from assms have "drop a xs = xs ! a # drop (Suc a) xs"
    by (simp add: Cons_nth_drop_Suc)
  moreover from assms have "b - a = Suc (b - Suc a)"
    by simp
  ultimately show ?thesis
    by (simp add: seg_def)
qed

lemma seg_append:
  assumes "a \<le> m" "m \<le> b"
  shows "seg xs a b = seg xs a m @ seg xs m b"
proof -
  from assms have "b - a = (m - a) + (b - m)"
    by simp
  then have "take (b - a) (drop a xs) = take (m - a) (drop a xs) @ take (b - m) (drop (m - a) (drop a xs))"
    by (simp only: take_add)
  with assms show ?thesis
    by (simp add: seg_def)
qed

lemma count_balanced:
  assumes "balanced w" "is_closer r"
  shows "count_list w (bracket_pairs_map r) = count_list w r"
  using assms
proof (induction rule: balanced.induct)
  case empty
  show ?case by simp
next
  case (other u t)
  with closer_facts(1) [OF \<open>is_closer r\<close>] show ?case
    by auto
next
  case (pair u v r')
  from pair.hyps(3) pair.prems closer_facts [of r] closer_facts [of r']
    opener_not_closer bracket_pairs_inj [of r r']
  have "(bracket_pairs_map r' = bracket_pairs_map r) = (r' = r)"
    "bracket_pairs_map r' \<noteq> r" "r' \<noteq> bracket_pairs_map r"
    by auto
  with pair show ?case
    by simp
qed

lemma count_suffix_balanced:
  assumes "balanced w" "is_closer r" "w = x @ y"
  shows "count_list y (bracket_pairs_map r) \<le> count_list y r"
  using assms
proof (induction arbitrary: x y rule: balanced.induct)
  case empty
  then show ?case by simp
next
  case (other u t)
  show ?case
  proof (cases y rule: rev_cases)
    case Nil
    then show ?thesis by simp
  next
    case (snoc y' t')
    with other.prems have "u = x @ y'" "t' = t"
      by auto
    with other.IH [OF other.prems(1), of x y'] other.hyps closer_facts(1) [OF other.prems(1)] snoc
    show ?thesis
      by auto
  qed
next
  case (pair u v r')
  note inj = bracket_pairs_inj [OF pair.prems(1) pair.hyps(3)]
  from pair.hyps(3) pair.prems(1) closer_facts [of r] closer_facts [of r'] opener_not_closer inj
  have eqs: "(bracket_pairs_map r' = bracket_pairs_map r) = (r' = r)"
    "bracket_pairs_map r' \<noteq> r" "r' \<noteq> bracket_pairs_map r"
    by auto
  show ?case
  proof (cases y rule: rev_cases)
    case Nil
    then show ?thesis by simp
  next
    case (snoc y' t')
    with pair.prems have split: "u @ bracket_pairs_map r' # v = x @ y'" and t': "t' = r'"
      by auto
    from split consider
      (inner) z where "v = z @ y'"
      | (outer) y'' where "y' = y'' @ bracket_pairs_map r' # v" "u = x @ y''"
      by (auto simp: append_eq_append_conv2 append_eq_Cons_conv Cons_eq_append_conv)
    then show ?thesis
    proof cases
      case inner
      from pair.IH(2) [OF pair.prems(1) inner] snoc t' eqs show ?thesis
        by auto
    next
      case outer
      from pair.IH(1) [OF pair.prems(1) outer(2)]
        count_balanced [OF pair.hyps(2) pair.prems(1)] snoc t' eqs outer(1)
      show ?thesis
        by auto
    qed
  qed
qed

lemma nest_append:
  "nest st n (u @ v) = (case nest st n u of None \<Rightarrow> None | Some st' \<Rightarrow> nest st' (n + length u) v)"
  by (induction u arbitrary: st n) (auto split: list.splits option.splits)

lemma stack_inv_other:
  assumes "stack_inv ks st m" "m < length ks" "\<not> is_opener (ks ! m)" "\<not> is_closer (ks ! m)"
  shows "stack_inv ks st (Suc m)"
proof (cases st)
  case Nil
  then show ?thesis by simp
next
  case (Cons p st')
  obtain j l where p: "p = (j, l)"
    by (cases p)
  from assms(1) Cons p have j: "j < m" and b: "balanced (seg ks (Suc j) m)"
    and rest: "ks ! j = l" "stack_inv ks st' j"
    by simp_all
  from j assms(2) have "seg ks (Suc j) (Suc m) = seg ks (Suc j) m @ [ks ! m]"
    by (simp add: seg_snoc)
  with balanced.other [OF b assms(3,4)] j rest Cons p show ?thesis
    by simp
qed

lemma stack_inv_push:
  assumes "stack_inv ks st m"
  shows "stack_inv ks ((m, ks ! m) # st) (Suc m)"
  using assms by (simp add: balanced.empty)

lemma stack_inv_pop:
  assumes "stack_inv ks ((j, l) # st) m" "m < length ks" "is_closer (ks ! m)"
    and "l = bracket_pairs_map (ks ! m)"
  shows "stack_inv ks st (Suc m)"
proof (cases st)
  case Nil
  then show ?thesis by simp
next
  case (Cons p st')
  obtain j' l' where p: "p = (j', l')"
    by (cases p)
  from assms(1) have j: "j < m" "ks ! j = l" and bv: "balanced (seg ks (Suc j) m)"
    by simp_all
  from assms(1) Cons p have j': "j' < j" "ks ! j' = l'" and bu: "balanced (seg ks (Suc j') j)"
    and rest: "stack_inv ks st' j'"
    by simp_all
  from j j' assms(2)
  have "seg ks (Suc j') (Suc m) = seg ks (Suc j') j @ seg ks j (Suc m)"
    by (intro seg_append) simp_all
  also from j assms(2) have "seg ks j (Suc m) = ks ! j # seg ks (Suc j) (Suc m)"
    by (intro seg_Cons) simp_all
  also from j assms(2) have "seg ks (Suc j) (Suc m) = seg ks (Suc j) m @ [ks ! m]"
    by (intro seg_snoc) simp_all
  finally have "seg ks (Suc j') (Suc m) =
      seg ks (Suc j') j @ bracket_pairs_map (ks ! m) # seg ks (Suc j) m @ [ks ! m]"
    using j assms(4) by simp
  with balanced.pair [OF bu bv assms(3)] have "balanced (seg ks (Suc j') (Suc m))"
    by simp
  with j j' rest Cons p show ?thesis
    by simp
qed

lemma nest_step_inv:
  assumes "stack_inv ks st m" "m < length ks" "nest st m [ks ! m] = Some st'"
  shows "stack_inv ks st' (Suc m)"
proof (cases "is_opener (ks ! m)")
  case True
  with assms(3) have "st' = (m, ks ! m) # st"
    by simp
  with stack_inv_push [OF assms(1)] show ?thesis
    by simp
next
  case no: False
  show ?thesis
  proof (cases "is_closer (ks ! m)")
    case True
    with no assms(3) obtain j l where "st = (j, l) # st'" "l = bracket_pairs_map (ks ! m)"
      by (auto split: list.splits if_splits)
    with stack_inv_pop [OF _ assms(2) True] assms(1) show ?thesis
      by simp
  next
    case False
    with no assms(3) have "st' = st"
      by simp
    with stack_inv_other [OF assms(1,2) no False] show ?thesis
      by simp
  qed
qed

lemma nest_take_inv:
  assumes "nest [] 0 (take m ks) = Some st" "m \<le> length ks"
  shows "stack_inv ks st m"
  using assms
proof (induction m arbitrary: st)
  case 0
  then show ?case by simp
next
  case (Suc m)
  then have m: "m < length ks"
    by simp
  then have "take (Suc m) ks = take m ks @ [ks ! m]"
    by (simp add: take_Suc_conv_app_nth)
  with Suc.prems(1) m obtain st0 where st0: "nest [] 0 (take m ks) = Some st0"
    and step: "nest st0 m [ks ! m] = Some st"
    by (auto simp: nest_append split: option.splits)
  from Suc.IH [OF st0] m have "stack_inv ks st0 m"
    by simp
  from nest_step_inv [OF this m step] show ?case .
qed

lemma skip_to_left_loop_counting:
  assumes "ks = map tok toks" "j \<le> m" "m \<le> i" "j < i" "i < length toks"
    and "ks ! j = left" "left \<noteq> right"
    and suffix: "\<forall>m'. j < m' \<and> m' \<le> i \<longrightarrow>
           count_list (seg ks m' i) left \<le> count_list (seg ks m' i) right"
    and total: "count_list (seg ks (Suc j) i) left = count_list (seg ks (Suc j) i) right"
  shows "skip_to_left_loop left right
           (1 + int (count_list (seg ks m i) right) - int (count_list (seg ks m i) left))
           \<lparr>tokens = toks, token_index = int m\<rparr>
         = Inr (True, \<lparr>tokens = toks, token_index = int j\<rparr>)"
  using assms(2,3)
proof (induction "m - j" arbitrary: m)
  case 0
  then have "m = j"
    by simp
  from assms(1,4,5) have "seg ks j i = ks ! j # seg ks (Suc j) i"
    by (intro seg_Cons) simp_all
  with assms(6,7) total \<open>m = j\<close> show ?case
    by (simp add: skip_to_left_loop.simps)
next
  case (Suc d)
  then obtain p where m: "m = Suc p" and p: "j \<le> p" "p \<le> i" "p < i" "d = p - j"
    by (cases m) auto
  let ?R = "count_list (seg ks m i) right" and ?L = "count_list (seg ks m i) left"
  from suffix m p Suc.prems have "?L \<le> ?R"
    by simp
  then have nz: "1 + int ?R - int ?L \<noteq> 0"
    by simp
  let ?it = "\<lparr>tokens = toks, token_index = int m\<rparr>"
  let ?it' = "\<lparr>tokens = toks, token_index = int p\<rparr>"
  have gb: "go_back ?it = (True, ?it')"
    by (simp add: go_back_def m)
  from p assms(5) have u: "token ?it' = Inr (toks ! p)"
    by (simp add: token_def)
  from p assms(1,5) have "seg ks p i = ks ! p # seg ks (Suc p) i"
    by (intro seg_Cons) simp_all
  with p assms(1,5) have cons: "seg ks p i = tok (toks ! p) # seg ks m i"
    by (simp add: m)
  have "(if tok (toks ! p) = right then 1 + int ?R - int ?L + 1
         else if tok (toks ! p) = left then 1 + int ?R - int ?L - 1
         else 1 + int ?R - int ?L)
        = 1 + int (count_list (seg ks p i) right) - int (count_list (seg ks p i) left)"
    using assms(7) by (auto simp: cons)
  with Suc.hyps(1) [OF p(4) p(1) p(2)] nz gb u show ?case
    by (simp add: skip_to_left_loop.simps [of left right _ ?it])
qed

section \<open>The claims\<close>

subsection \<open>The examples of the specification\<close>

text \<open>
  Claim C1, as stated, fails. In the source \<^verbatim>\<open>import "foo/b\<close> (13 bytes, no closing quote)
  the string token starts at offset 7 and its literal is the 6 bytes \<^verbatim>\<open>"foo/b\<close>, so with
  the cursor at offset 13 the trailing offset is 6, which is not below the length of the
  literal: the guard \<^verbatim>\<open>off >= len(path)\<close> returns the unknown context.
\<close>

theorem import_unterminated_counterexample:
  \<open>deduce_cursor_context_helper (go_scanner stop_scan) ''import "foo/b'' 13
     = Inr (unknownContext, '''', '''')
   \<and> deduce_cursor_context_helper (go_scanner stop_scan) ''import "foo/b'' 13
     \<noteq> Inr (importContext, '''', ''foo/b'')\<close>
  by code_simp

text \<open>
  Claim C1, amended. With the closing quote present, \<^verbatim>\<open>import "foo/b"\<close> (14 bytes), and
  the cursor at byte offset 13, right after the \<^verbatim>\<open>b\<close>, the classifier returns the import
  context with an empty expression and the partial path \<^verbatim>\<open>foo/b\<close>. Without the closing
  quote the cursor at offset 13 is not strictly inside the literal and the result is the
  unknown context with empty strings.
\<close>

theorem import_example:
  \<open>deduce_cursor_context_helper (go_scanner other) ''import "foo/b"'' 13
     = Inr (importContext, '''', ''foo/b'')
   \<and> deduce_cursor_context_helper (go_scanner other) ''import "foo/b'' 13
     = Inr (unknownContext, '''', '''')\<close>
  by code_simp

text \<open>
  Claim C3. For the source \<^verbatim>\<open>foo.Bar.Ba\<close> with the cursor at byte offset 10, right after
  \<^verbatim>\<open>Ba\<close>, the classifier returns the select context with the expression \<^verbatim>\<open>foo.Bar\<close> and
  the partial identifier \<^verbatim>\<open>Ba\<close>.
\<close>

theorem select_example:
  "deduce_cursor_context_helper (go_scanner other) ''foo.Bar.Ba'' 10 =
     Inr (selectContext, ''foo.Bar'', ''Ba'')"
  by code_simp

text \<open>
  Claim C4. For the source \<^verbatim>\<open>Point{X: 1, Y\<close> with the cursor right after \<^verbatim>\<open>Y\<close> (byte
  offset 13), the classifier returns the composite-literal context with the type name
  \<^verbatim>\<open>Point\<close> and the partial identifier \<^verbatim>\<open>Y\<close>.
\<close>

theorem composite_literal_example:
  "deduce_cursor_context_helper (go_scanner other) ''Point{X: 1, Y'' 13 =
     Inr (compositeLiteralContext, ''Point'', ''Y'')"
  by code_simp

subsection \<open>The bracket balancer\<close>

text \<open>
  Claim C2. In a token sequence whose brackets are properly nested, take any closing
  bracket, at position \<open>i\<close>. Then \<^verbatim>\<open>skip_to_balanced_pair\<close>, called with the read index
  on it, returns \<^verbatim>\<open>true\<close> and leaves the read index on the syntactic opener of that
  bracket: the opening bracket of its kind that the nesting check has on top of its stack
  at \<open>i\<close>. The depth of nesting is arbitrary.
\<close>

theorem balance_correct:
  assumes "properly_nested (map tok toks)" "i < length toks" "is_closer (tok (toks ! i))"
  shows "\<exists>j. matching_opener (map tok toks) i = Some j \<and> j < i
           \<and> tok (toks ! j) = bracket_pairs_map (tok (toks ! i))
           \<and> skip_to_balanced_pair \<lparr>tokens = toks, token_index = int i\<rparr>
               = Inr (True, \<lparr>tokens = toks, token_index = int j\<rparr>)"
proof -
  define ks where "ks = map tok toks"
  define r where "r = tok (toks ! i)"
  from assms(2) have ki: "ks ! i = r" "i < length ks"
    by (simp_all add: ks_def r_def)
  have "ks = take i ks @ ks ! i # drop (Suc i) ks"
    using ki(2) by (rule id_take_nth_drop)
  with assms(1) have "nest [] 0 (take i ks @ ks ! i # drop (Suc i) ks) \<noteq> None"
    by (simp add: properly_nested_def ks_def [symmetric])
  then obtain st where st: "nest [] 0 (take i ks) = Some st"
    and after: "nest st i (ks ! i # drop (Suc i) ks) \<noteq> None"
    using ki(2) by (auto simp: nest_append split: option.splits)
  from assms(3) have cl: "is_closer r"
    by (simp add: r_def)
  note cf = closer_facts [OF cl]
  from after ki(1) cl cf(3) obtain j st' where top: "st = (j, bracket_pairs_map r) # st'"
    by (auto split: list.splits if_splits)
  from nest_take_inv [OF st] ki(2) top
  have j: "j < i" "ks ! j = bracket_pairs_map r" and b: "balanced (seg ks (Suc j) i)"
    by simp_all
  have suffix: "\<forall>m'. j < m' \<and> m' \<le> i \<longrightarrow>
      count_list (seg ks m' i) (bracket_pairs_map r) \<le> count_list (seg ks m' i) r"
  proof (intro allI impI)
    fix m' assume "j < m' \<and> m' \<le> i"
    then have "seg ks (Suc j) i = seg ks (Suc j) m' @ seg ks m' i"
      by (intro seg_append) simp_all
    from count_suffix_balanced [OF b cl this]
    show "count_list (seg ks m' i) (bracket_pairs_map r) \<le> count_list (seg ks m' i) r" .
  qed
  note total = count_balanced [OF b cl]
  from j(1) have le: "j \<le> i"
    by simp
  from skip_to_left_loop_counting [OF ks_def le order_refl j(1) assms(2) j(2) cf(2) suffix total]
  have loop: "skip_to_left_loop (bracket_pairs_map r) r 1 \<lparr>tokens = toks, token_index = int i\<rparr>
      = Inr (True, \<lparr>tokens = toks, token_index = int j\<rparr>)"
    by simp
  from assms(2) have t: "token \<lparr>tokens = toks, token_index = int i\<rparr> = Inr (toks ! i)"
    by (simp add: token_def)
  from loop t cf(2) have "skip_to_balanced_pair \<lparr>tokens = toks, token_index = int i\<rparr>
      = Inr (True, \<lparr>tokens = toks, token_index = int j\<rparr>)"
    by (simp add: skip_to_balanced_pair_def skip_to_left_def r_def [symmetric])
  moreover from st top have "matching_opener (map tok toks) i = Some j"
    by (simp add: matching_opener_def ks_def [symmetric])
  moreover from j assms(2) have "tok (toks ! j) = bracket_pairs_map (tok (toks ! i))"
    by (simp add: ks_def r_def)
  ultimately show ?thesis
    using j(1) by blast
qed

text \<open>
  The tokens of \<^verbatim>\<open>f(a[i], g{x})\<close>: the closing parenthesis at position 11 has its opener
  at position 1, across a pair of square brackets and a pair of braces.
\<close>

theorem balance_correct_witness:
  "properly_nested (map tok nested_tokens)
   \<and> is_closer (tok (nested_tokens ! 11))
   \<and> matching_opener (map tok nested_tokens) 11 = Some 1
   \<and> skip_to_balanced_pair \<lparr>tokens = nested_tokens, token_index = 11\<rparr>
       = Inr (True, \<lparr>tokens = nested_tokens, token_index = 1\<rparr>)"
proof -
  have h1: "properly_nested (map tok nested_tokens)"
    by code_simp
  have h2: "11 < length nested_tokens"
    by code_simp
  have h3: "is_closer (tok (nested_tokens ! 11))"
    by code_simp
  have m: "matching_opener (map tok nested_tokens) 11 = Some 1"
    by code_simp
  from balance_correct [OF h1 h2 h3] m
  have "skip_to_balanced_pair \<lparr>tokens = nested_tokens, token_index = int 11\<rparr>
      = Inr (True, \<lparr>tokens = nested_tokens, token_index = int 1\<rparr>)"
    by auto
  with h1 h3 m show ?thesis
    by simp
qed

text \<open>
  Claim C5. The balancer always returns: \<^verbatim>\<open>skip_to_left\<close> is a total function (its loop
  has a termination proof), and on an iterator whose index is in range it returns a
  result and no panic. When it returns \<^verbatim>\<open>false\<close> the read index is 0, the oldest token.
  When no token at or before the read index is an opener of the wanted kind, as for a
  closing bracket with no opener anywhere before it, it returns \<^verbatim>\<open>false\<close>. And the
  classifier returns a result for every source and every cursor inside the source.
\<close>

theorem balancer_exhaustion:
  "(index_in_range ti \<longrightarrow>
      (\<exists>ok ti'. skip_to_left left right ti = Inr (ok, ti') \<and> tokens ti' = tokens ti
         \<and> (\<not> ok \<longrightarrow> token_index ti' = 0)))
   \<and> (index_in_range ti \<and> (\<forall>k \<le> nat (token_index ti). tok (tokens ti ! k) \<noteq> left) \<longrightarrow>
        skip_to_left left right ti = Inr (False, ti\<lparr>token_index := 0\<rparr>))
   \<and> (cursor \<le> int (length src) \<longrightarrow>
        (\<exists>r. deduce_cursor_context_helper scan src cursor = Inr r))"
proof (intro conjI impI)
  assume "index_in_range ti"
  from skip_to_left_in_range [OF this, of left right]
  show "\<exists>ok ti'. skip_to_left left right ti = Inr (ok, ti') \<and> tokens ti' = tokens ti
         \<and> (\<not> ok \<longrightarrow> token_index ti' = 0)"
    by blast
next
  assume "index_in_range ti \<and> (\<forall>k \<le> nat (token_index ti). tok (tokens ti ! k) \<noteq> left)"
  then show "skip_to_left left right ti = Inr (False, ti\<lparr>token_index := 0\<rparr>)"
    by (intro skip_to_left_exhausted) simp_all
next
  assume "cursor \<le> int (length src)"
  then show "\<exists>r. deduce_cursor_context_helper scan src cursor = Inr r"
    by (rule deduce_defined)
qed

text \<open>
  In \<^verbatim>\<open>x).y\<close> the closing parenthesis has no opener: the balancer stops at index 0 with
  \<^verbatim>\<open>false\<close>, and the classifier still returns the select context.
\<close>

theorem balancer_exhaustion_witness:
  "index_in_range \<lparr>tokens = unbalanced_tokens, token_index = 1\<rparr>
   \<and> skip_to_left LPAREN RPAREN \<lparr>tokens = unbalanced_tokens, token_index = 1\<rparr>
       = Inr (False, \<lparr>tokens = unbalanced_tokens, token_index = 0\<rparr>)
   \<and> deduce_cursor_context_helper (go_scanner stop_scan) ''x).y'' 4
       = Inr (selectContext, ''x)'', ''y'')"
proof -
  let ?ti = "\<lparr>tokens = unbalanced_tokens, token_index = 1\<rparr>"
  have r: "index_in_range ?ti"
    by (simp add: index_in_range_def unbalanced_tokens_def)
  have "tok (tokens ?ti ! k) \<noteq> LPAREN" if "k \<le> nat (token_index ?ti)" for k
  proof -
    from that have "k = 0 \<or> k = 1"
      by auto
    then show ?thesis
      by (auto simp: unbalanced_tokens_def token_code)
  qed
  with r balancer_exhaustion [of ?ti LPAREN RPAREN 4 "''x).y''" "go_scanner stop_scan"]
  have "skip_to_left LPAREN RPAREN ?ti = Inr (False, ?ti\<lparr>token_index := 0\<rparr>)"
    and "\<exists>r. deduce_cursor_context_helper (go_scanner stop_scan) ''x).y'' 4 = Inr r"
    by auto
  moreover have "deduce_cursor_context_helper (go_scanner stop_scan) ''x).y'' 4
       = Inr (selectContext, ''x)'', ''y'')"
    by code_simp
  ultimately show ?thesis
    using r by simp
qed

subsection \<open>The iterator\<close>

text \<open>
  Claim C6, as stated, fails where no token is collected: the trailing offset is then
  \<^verbatim>\<open>cursorPos - token.NoPos\<close>, the position of the cursor in a file of base 1, which is
  the cursor offset plus 1 and not 0. For the empty source and the cursor at offset 0 it
  is 1.
\<close>

theorem trailing_offset_counterexample:
  "new_token_iterator (go_scanner stop_scan) '''' 0
     = Inr (\<lparr>tokens = [], token_index = - 1\<rparr>, 1)"
  by code_simp

text \<open>
  Claim C6, amended. For every source and every cursor offset from 0 to the length of
  the source, \<^verbatim>\<open>new_token_iterator\<close> returns the collected tokens, with the read index on
  the last one, and a trailing offset that is the cursor offset minus the byte offset of
  the start of the last collected token; when no token is collected, the trailing offset
  is the cursor offset plus 1.
\<close>

theorem trailing_offset:
  assumes "0 \<le> cursor" "cursor \<le> int (length src)"
  shows "new_token_iterator scan src cursor =
     Inr (\<lparr>tokens = map item_of (collected (scan src) cursor),
           token_index = int (length (collected (scan src) cursor)) - 1\<rparr>,
          if collected (scan src) cursor = [] then cursor + 1
          else cursor - int (fst (last (collected (scan src) cursor))))"
  using assms(2) by (rule new_token_iterator_collected)

theorem trailing_offset_witness:
  "(0::int) \<le> 10 \<and> 10 \<le> int (length ''foo.Bar.Ba'')
   \<and> fst (last (collected (go_scanner stop_scan ''foo.Bar.Ba'') 10)) = 8
   \<and> new_token_iterator (go_scanner stop_scan) ''foo.Bar.Ba'' 10 =
       Inr (\<lparr>tokens = map item_of (collected (go_scanner stop_scan ''foo.Bar.Ba'') 10),
             token_index = 4\<rparr>, 2)"
proof -
  have h1: "(0::int) \<le> 10" and h2: "10 \<le> int (length ''foo.Bar.Ba'')"
    by simp_all
  have c: "collected (go_scanner stop_scan ''foo.Bar.Ba'') 10 \<noteq> []"
    "length (collected (go_scanner stop_scan ''foo.Bar.Ba'') 10) = 5"
    "fst (last (collected (go_scanner stop_scan ''foo.Bar.Ba'') 10)) = 8"
    by code_simp+
  from trailing_offset [OF h1 h2, of "go_scanner stop_scan"] c show ?thesis
    by simp
qed

text \<open>
  Claim C9. A classification never reads a token outside the slice: in the model every
  such read is the error \<open>IndexOutOfRange\<close>, every function passes an error on to its
  caller, and the classifier never returns that error, for any scanner, source and
  cursor. The iterator that \<^verbatim>\<open>new_token_iterator\<close> returns with at least one token has its
  index in range; \<^verbatim>\<open>go_back\<close> never moves an index that is at least 0 below 0; and every
  operation on an iterator whose index is in range returns without a panic and leaves the
  index in range.
\<close>

theorem index_always_in_range:
  "deduce_cursor_context_helper scan src cursor \<noteq> Inl IndexOutOfRange
   \<and> (new_token_iterator scan src cursor = Inr (iter, off) \<and> tokens iter \<noteq> [] \<longrightarrow>
        index_in_range iter)
   \<and> (0 \<le> token_index ti \<longrightarrow> 0 \<le> token_index (snd (go_back ti)))
   \<and> (index_in_range ti \<longrightarrow>
        index_in_range (snd (go_back ti))
        \<and> (\<exists>t. token ti = Inr t)
        \<and> (\<exists>ok ti'. skip_to_left left right ti = Inr (ok, ti') \<and> index_in_range ti')
        \<and> (\<exists>ok ti'. skip_to_balanced_pair ti = Inr (ok, ti') \<and> index_in_range ti')
        \<and> (\<exists>s. extract_struct_type ti = Inr s)
        \<and> (\<exists>s. extract_go_expr ti = Inr s)
        \<and> (\<exists>b. import_loop ti = Inr b))"
proof (intro conjI impI)
  show "deduce_cursor_context_helper scan src cursor \<noteq> Inl IndexOutOfRange"
    by (rule deduce_no_index_panic)
next
  assume "new_token_iterator scan src cursor = Inr (iter, off) \<and> tokens iter \<noteq> []"
  then show "index_in_range iter"
    using last_token(1) [OF new_token_iterator_shape] by blast
next
  assume "0 \<le> token_index ti"
  then show "0 \<le> token_index (snd (go_back ti))"
    by (simp add: go_back_def)
next
  assume r: "index_in_range ti"
  obtain w ti' where gb: "go_back ti = (w, ti')"
    by (cases "go_back ti")
  from go_back_in_range [OF r gb] gb show "index_in_range (snd (go_back ti))"
    by simp
  from r show "\<exists>t. token ti = Inr t"
    by (simp add: token_in_range)
  from skip_to_left_in_range [OF r, of left right]
  show "\<exists>ok ti'. skip_to_left left right ti = Inr (ok, ti') \<and> index_in_range ti'"
    by blast
  from skip_to_balanced_pair_in_range [OF r]
  show "\<exists>ok ti'. skip_to_balanced_pair ti = Inr (ok, ti') \<and> index_in_range ti'"
    by blast
  from r show "\<exists>s. extract_struct_type ti = Inr s"
    by (rule extract_struct_type_in_range)
  from r show "\<exists>s. extract_go_expr ti = Inr s"
    by (rule extract_go_expr_in_range)
  from r show "\<exists>b. import_loop ti = Inr b"
    by (rule import_loop_in_range)
qed

theorem index_always_in_range_witness:
  "index_in_range \<lparr>tokens = nested_tokens, token_index = 11\<rparr>
   \<and> index_in_range (snd (go_back \<lparr>tokens = nested_tokens, token_index = 11\<rparr>))
   \<and> new_token_iterator (go_scanner stop_scan) ''x).y'' 4
       = Inr (\<lparr>tokens = unbalanced_tokens @ [\<lparr>tok = PERIOD, lit = ''''\<rparr>, \<lparr>tok = IDENT, lit = ''y''\<rparr>],
               token_index = 3\<rparr>, 1)
   \<and> index_in_range \<lparr>tokens = unbalanced_tokens @ [\<lparr>tok = PERIOD, lit = ''''\<rparr>, \<lparr>tok = IDENT, lit = ''y''\<rparr>],
               token_index = 3\<rparr>
   \<and> deduce_cursor_context_helper (go_scanner stop_scan) ''x).y'' 4 \<noteq> Inl IndexOutOfRange"
proof -
  let ?ti = "\<lparr>tokens = nested_tokens, token_index = 11\<rparr>"
  let ?iter = "\<lparr>tokens = unbalanced_tokens @ [\<lparr>tok = PERIOD, lit = ''''\<rparr>, \<lparr>tok = IDENT, lit = ''y''\<rparr>],
               token_index = 3\<rparr>"
  have r: "index_in_range ?ti"
    by (simp add: index_in_range_def nested_tokens_def)
  have n: "new_token_iterator (go_scanner stop_scan) ''x).y'' 4 = Inr (?iter, 1)"
    by code_simp
  have ne: "tokens ?iter \<noteq> []"
    by simp
  from index_always_in_range [of "go_scanner stop_scan" "''x).y''" 4 ?iter 1 ?ti] r n ne
  show ?thesis
    by simp
qed

subsection \<open>The extractors and the classifier\<close>

text \<open>
  Claim C7. When the structural-type extractor has reached the enclosing open brace, at
  position \<open>j\<close>, and the token before it is an identifier with the text \<open>b\<close>, the result
  is \<open>p.b\<close> if the two tokens before that identifier are an identifier with the text \<open>p\<close>
  and a period, and \<open>b\<close> in every other case: one level of qualification at most. For the
  source \<^verbatim>\<open>pkg.Point{\<close> with the cursor right after the brace the result is \<^verbatim>\<open>pkg.Point\<close>,
  and for \<^verbatim>\<open>a.pkg.Point{\<close> it is \<^verbatim>\<open>pkg.Point\<close> as well.
\<close>

theorem struct_type_qualification:
  "(index_in_range ti \<and> skip_to_left_curly ti = Inr (True, ti0) \<and> 0 < token_index ti0
      \<and> tok (tokens ti ! nat (token_index ti0 - 1)) = IDENT \<longrightarrow>
      extract_struct_type ti =
        Inr (let j = nat (token_index ti0); b = literal (tokens ti ! (j - 1))
             in if 3 \<le> j \<and> tok (tokens ti ! (j - 2)) = PERIOD
                    \<and> tok (tokens ti ! (j - 3)) = IDENT
                then literal (tokens ti ! (j - 3)) @ ''.'' @ b
                else b))
   \<and> deduce_cursor_context_helper (go_scanner other) ''pkg.Point{'' 10
       = Inr (compositeLiteralContext, ''pkg.Point'', '''')
   \<and> deduce_cursor_context_helper (go_scanner other) ''a.pkg.Point{'' 12
       = Inr (compositeLiteralContext, ''pkg.Point'', '''')"
proof (intro conjI impI)
  assume "index_in_range ti \<and> skip_to_left_curly ti = Inr (True, ti0) \<and> 0 < token_index ti0
      \<and> tok (tokens ti ! nat (token_index ti0 - 1)) = IDENT"
  then show "extract_struct_type ti =
        Inr (let j = nat (token_index ti0); b = literal (tokens ti ! (j - 1))
             in if 3 \<le> j \<and> tok (tokens ti ! (j - 2)) = PERIOD
                    \<and> tok (tokens ti ! (j - 3)) = IDENT
                then literal (tokens ti ! (j - 3)) @ ''.'' @ b
                else b)"
    by (intro extract_struct_type_result) simp_all
next
  show "deduce_cursor_context_helper (go_scanner other) ''pkg.Point{'' 10
       = Inr (compositeLiteralContext, ''pkg.Point'', '''')"
    by code_simp
next
  show "deduce_cursor_context_helper (go_scanner other) ''a.pkg.Point{'' 12
       = Inr (compositeLiteralContext, ''pkg.Point'', '''')"
    by code_simp
qed

theorem struct_type_qualification_witness:
  "index_in_range \<lparr>tokens = qualified_tokens, token_index = 3\<rparr>
   \<and> skip_to_left_curly \<lparr>tokens = qualified_tokens, token_index = 3\<rparr>
       = Inr (True, \<lparr>tokens = qualified_tokens, token_index = 3\<rparr>)
   \<and> tok (qualified_tokens ! 2) = IDENT
   \<and> extract_struct_type \<lparr>tokens = qualified_tokens, token_index = 3\<rparr> = Inr ''pkg.Point''"
proof -
  let ?ti = "\<lparr>tokens = qualified_tokens, token_index = 3\<rparr>"
  have r: "index_in_range ?ti"
    by (simp add: index_in_range_def qualified_tokens_def)
  have s: "skip_to_left_curly ?ti = Inr (True, ?ti)"
    by code_simp
  have i: "tok (qualified_tokens ! 2) = IDENT"
    by code_simp
  have v: "(let j = nat (token_index ?ti); b = literal (tokens ?ti ! (j - 1))
             in if 3 \<le> j \<and> tok (tokens ?ti ! (j - 2)) = PERIOD
                    \<and> tok (tokens ?ti ! (j - 3)) = IDENT
                then literal (tokens ?ti ! (j - 3)) @ ''.'' @ b
                else b) = ''pkg.Point''"
    by code_simp
  from struct_type_qualification [of ?ti ?ti] r s i
  have "extract_struct_type ?ti =
        Inr (let j = nat (token_index ?ti); b = literal (tokens ?ti ! (j - 1))
             in if 3 \<le> j \<and> tok (tokens ?ti ! (j - 2)) = PERIOD
                    \<and> tok (tokens ?ti ! (j - 3)) = IDENT
                then literal (tokens ?ti ! (j - 3)) @ ''.'' @ b
                else b)"
    by simp
  with v r s i show ?thesis
    by simp
qed

text \<open>
  Claim C8. Whenever the last token before the cursor is an identifier and the trailing
  offset is greater than the length of its text, so that the cursor is in the white space
  after the word, the classifier returns the unknown context with two empty strings.
\<close>

theorem whitespace_separated_cursor:
  assumes "new_token_iterator scan src cursor = Inr (iter, off)"
    and "tokens iter \<noteq> []"
    and "tok (last (tokens iter)) = IDENT"
    and "int (length (literal (last (tokens iter)))) < off"
  shows "deduce_cursor_context_helper scan src cursor = Inr (unknownContext, '''', '''')"
  using assms last_token [OF new_token_iterator_shape [OF assms(1)] assms(2)]
  by (simp add: deduce_cursor_context_helper_def IDENT_not_STRING)

theorem whitespace_separated_cursor_witness:
  "new_token_iterator (go_scanner stop_scan) ''foo '' 4
     = Inr (\<lparr>tokens = [\<lparr>tok = IDENT, lit = ''foo''\<rparr>], token_index = 0\<rparr>, 4)
   \<and> literal \<lparr>tok = IDENT, lit = ''foo''\<rparr> = ''foo''
   \<and> deduce_cursor_context_helper (go_scanner stop_scan) ''foo '' 4
       = Inr (unknownContext, '''', '''')"
proof -
  let ?iter = "\<lparr>tokens = [\<lparr>tok = IDENT, lit = ''foo''\<rparr>], token_index = 0\<rparr>"
  have n: "new_token_iterator (go_scanner stop_scan) ''foo '' 4 = Inr (?iter, 4)"
    by code_simp
  have l: "literal \<lparr>tok = IDENT, lit = ''foo''\<rparr> = ''foo''"
    by code_simp
  have "deduce_cursor_context_helper (go_scanner stop_scan) ''foo '' 4
       = Inr (unknownContext, '''', '''')"
    by (rule whitespace_separated_cursor [OF n]) (simp_all add: l)
  with n l show ?thesis
    by simp
qed

text \<open>
  Claim C10. The guard against a cursor in the white space after the word is applied to
  identifiers only. When the last token before the cursor is one of the keywords
  \<^verbatim>\<open>type\<close>, \<^verbatim>\<open>const\<close>, \<^verbatim>\<open>var\<close>, \<^verbatim>\<open>func\<close> and \<^verbatim>\<open>package\<close>, the partial identifier of the
  result is the whole keyword, whatever the trailing offset. The source \<^verbatim>\<open>var\<close> followed
  by one space, with the cursor at byte offset 4, gives the unknown context with the
  partial \<^verbatim>\<open>var\<close>, where an identifier in the same place gives the empty partial.
\<close>

theorem keyword_keeps_partial:
  "(new_token_iterator scan src cursor = Inr (iter, off) \<and> tokens iter \<noteq> []
      \<and> (tok (last (tokens iter)) = TYPE_tok \<or> tok (last (tokens iter)) = CONST_tok
          \<or> tok (last (tokens iter)) = VAR \<or> tok (last (tokens iter)) = FUNC
          \<or> tok (last (tokens iter)) = PACKAGE) \<longrightarrow>
      (\<exists>ctx expr. deduce_cursor_context_helper scan src cursor
         = Inr (ctx, expr, Token_String (tok (last (tokens iter))))))
   \<and> Token_String VAR = ''var''
   \<and> deduce_cursor_context_helper (go_scanner other) ''var '' 4
       = Inr (unknownContext, '''', ''var'')
   \<and> deduce_cursor_context_helper (go_scanner other) ''foo '' 4
       = Inr (unknownContext, '''', '''')"
proof (intro conjI impI)
  assume "new_token_iterator scan src cursor = Inr (iter, off) \<and> tokens iter \<noteq> []
      \<and> (tok (last (tokens iter)) = TYPE_tok \<or> tok (last (tokens iter)) = CONST_tok
          \<or> tok (last (tokens iter)) = VAR \<or> tok (last (tokens iter)) = FUNC
          \<or> tok (last (tokens iter)) = PACKAGE)"
  then show "\<exists>ctx expr. deduce_cursor_context_helper scan src cursor
         = Inr (ctx, expr, Token_String (tok (last (tokens iter))))"
    by (intro deduce_keyword_partial) simp_all
next
  show "Token_String VAR = ''var''"
    by code_simp
next
  show "deduce_cursor_context_helper (go_scanner other) ''var '' 4
       = Inr (unknownContext, '''', ''var'')"
    by code_simp
next
  show "deduce_cursor_context_helper (go_scanner other) ''foo '' 4
       = Inr (unknownContext, '''', '''')"
    by code_simp
qed

theorem keyword_keeps_partial_witness:
  "new_token_iterator (go_scanner stop_scan) ''func  '' 6
     = Inr (\<lparr>tokens = [\<lparr>tok = FUNC, lit = ''func''\<rparr>], token_index = 0\<rparr>, 6)
   \<and> Token_String FUNC = ''func''
   \<and> (\<exists>ctx expr. deduce_cursor_context_helper (go_scanner stop_scan) ''func  '' 6
         = Inr (ctx, expr, ''func''))"
proof -
  let ?iter = "\<lparr>tokens = [\<lparr>tok = FUNC, lit = ''func''\<rparr>], token_index = 0\<rparr>"
  have n: "new_token_iterator (go_scanner stop_scan) ''func  '' 6 = Inr (?iter, 6)"
    by code_simp
  have s: "Token_String FUNC = ''func''"
    by code_simp
  from keyword_keeps_partial [of "go_scanner stop_scan" "''func  ''" 6 ?iter 6] n s
  show ?thesis
    by simp
qed

end
